theory Spec2Isabelle
  imports Complex_Main "HOL-Library.Log_Nat" "HOL-Library.Char_ord" "HOL-Library.List_Lexorder"
begin

section \<open>Python values used by catalog\_app.py\<close>

subsection \<open>Exceptions\<close>

text \<open>
  The exceptions that can leave the two functions of \<^verbatim>\<open>catalog_app.py\<close>. The source has
  no \<^verbatim>\<open>try\<close> and no \<^verbatim>\<open>raise\<close>: every exception is one of the interpreter
  (\<open>ZeroDivisionError\<close>) or of a library: \<open>BadZipFile\<close> and \<open>KeyError\<close> of
  \<^verbatim>\<open>zipfile\<close>; \<open>UnidentifiedImageError\<close>, \<open>DecompressionBombError\<close>, \<open>OSError\<close> (image
  data cut short) and \<open>ValueError\<close> (an empty image cannot be written) of PIL;
  \<open>UnicodeEncodeError\<close> when ReportLab writes the document title; \<open>LibraryError\<close> is
  any other exception of a library, by its name. \<open>InvalidImage\<close> is the error the
  specification names; no line of the source constructs it, it is here so that
  statements can speak of it.
\<close>

datatype error =
    BadZipFile
  | KeyError string
  | UnidentifiedImageError
  | DecompressionBombError
  | OSError
  | ValueError
  | ZeroDivisionError
  | UnicodeEncodeError
  | LibraryError string
  | InvalidImage string

subsection \<open>Floats\<close>

text \<open>
  A Python \<^verbatim>\<open>float\<close> is an IEEE 754 binary64 number. It is represented by the real
  number it denotes; every arithmetic operation computes the exact result and rounds it
  to 53 significant bits, ties to even (\<open>fl\<close>). The exponent range is not bounded:
  overflow, underflow and the special values do not occur for the magnitudes of this
  program (page coordinates in points, image sizes below \<open>2^31\<close>).
\<close>

definition pow2 :: "int \<Rightarrow> real" where
  "pow2 e = (if 0 \<le> e then 2 ^ nat e else 1 / 2 ^ nat (- e))"

definition round_even :: "real \<Rightarrow> int" where
  "round_even y = (let f = \<lfloor>y\<rfloor>; r = y - of_int f in
     if r < 1 / 2 then f else if 1 / 2 < r then f + 1 else if even f then f else f + 1)"

text \<open>\<open>expo x\<close> is the binary exponent of \<open>x\<close>: \<open>2 ^ expo x \<le> \<bar>x\<bar> < 2 ^ (expo x + 1)\<close>.\<close>

definition expo :: "real \<Rightarrow> int" where
  "expo x = (if 1 \<le> \<bar>x\<bar> then int (floorlog 2 (nat \<lfloor>\<bar>x\<bar>\<rfloor>)) - 1
             else - int (floorlog 2 (nat \<lceil>1 / \<bar>x\<bar>\<rceil> - 1)))"

definition fl :: "real \<Rightarrow> real" where
  "fl x = (if x = 0 then 0 else
     let u = pow2 (expo x - 52) in of_int (round_even (x / u)) * u)"

text \<open>A decimal literal such as \<^verbatim>\<open>1.4\<close> is the double nearest to it.\<close>

definition py_float :: "real \<Rightarrow> real" where
  "py_float q = fl q"

text \<open>An \<^verbatim>\<open>int\<close> operand of a float operation is converted to a double first.\<close>

definition float_of_nat :: "nat \<Rightarrow> real" where
  "float_of_nat n = fl (of_nat n)"

definition fadd :: "real \<Rightarrow> real \<Rightarrow> real" where
  "fadd a b = fl (a + b)"

definition fsub :: "real \<Rightarrow> real \<Rightarrow> real" where
  "fsub a b = fl (a - b)"

definition fmul :: "real \<Rightarrow> real \<Rightarrow> real" where
  "fmul a b = fl (a * b)"

text \<open>\<^verbatim>\<open>a / b\<close> raises \<^verbatim>\<open>ZeroDivisionError\<close> when \<^verbatim>\<open>b\<close> is zero.\<close>

definition truediv :: "real \<Rightarrow> real \<Rightarrow> error + real" where
  "truediv a b = (if b = 0 then Inl ZeroDivisionError else Inr (fl (a / b)))"

subsection \<open>Strings\<close>

text \<open>
  A \<^verbatim>\<open>str\<close> is a \<open>string\<close>; a character outside ASCII is its UTF-8 bytes, whose
  lexicographic order is the order of the code points. \<^verbatim>\<open>str.lower\<close> is modelled on
  ASCII letters; it maps no character outside ASCII to a character of \<^verbatim>\<open>.png\<close>,
  \<^verbatim>\<open>.jpg\<close> or \<^verbatim>\<open>.jpeg\<close>. A \<^verbatim>\<open>str\<close> can hold a surrogate code point
  (U+D800 to U+DFFF), which no text encoding accepts; it is the three bytes of its
  generalised UTF-8 form, \<open>0xED\<close> then a byte in \<open>0xA0..0xBF\<close> then one more, a
  sequence that the UTF-8 of other text never contains.
\<close>

fun has_surrogate :: "string \<Rightarrow> bool" where
  "has_surrogate (a # b # cs) =
     ((of_char a = (237 :: nat) \<and> (160 :: nat) \<le> of_char b \<and> of_char b \<le> (191 :: nat))
      \<or> has_surrogate (b # cs))"
| "has_surrogate [a] = False"
| "has_surrogate [] = False"

definition lower_char :: "char \<Rightarrow> char" where
  "lower_char c = (let n = (of_char c :: nat) in
     if 65 \<le> n \<and> n \<le> 90 then char_of (n + 32) else c)"

definition lower :: "string \<Rightarrow> string" where
  "lower s = map lower_char s"

definition endswith :: "string \<Rightarrow> string \<Rightarrow> bool" where
  "endswith s suf = (length suf \<le> length s \<and> drop (length s - length suf) s = suf)"

text \<open>\<^verbatim>\<open>s.endswith((a, b, c))\<close> with a tuple of suffixes.\<close>

definition endswith_any :: "string \<Rightarrow> string list \<Rightarrow> bool" where
  "endswith_any s sufs = list_ex (endswith s) sufs"

fun dec_digits :: "nat \<Rightarrow> string" where
  "dec_digits n = (if n < 10 then [char_of (48 + n)]
                   else dec_digits (n div 10) @ [char_of (48 + n mod 10)])"

declare dec_digits.simps [simp del]

text \<open>The format \<^verbatim>\<open>{idx:02d}\<close>: decimal digits, padded with zeros to at least two.\<close>

definition format_02d :: "nat \<Rightarrow> string" where
  "format_02d n = (let s = dec_digits n in replicate (2 - length s) (CHR ''0'') @ s)"



section \<open>The libraries\<close>

subsection \<open>PIL images\<close>

text \<open>
  An \<^verbatim>\<open>Image\<close> has a mode, a size (width, height) and its pixels in row order, a pixel
  being the list of its band values (0..255).
\<close>

type_synonym pixel = "nat list"

record image =
  mode :: string
  size_wh :: "nat \<times> nat"
  pixels :: "pixel list"

type_synonym bytes = "nat list"

text \<open>
  \<^verbatim>\<open>ZipFile\<close> as the source uses it: \<^verbatim>\<open>namelist()\<close>, and \<^verbatim>\<open>read(name)\<close>, which
  returns the bytes of the entry or raises.
\<close>

record zipfile =
  namelist :: "string list"
  zread :: "string \<Rightarrow> error + bytes"

text \<open>
  What the program takes from outside itself, each call returning its result or the
  exception it raises: the zip parser behind \<^verbatim>\<open>ZipFile(...)\<close>; \<^verbatim>\<open>Image.open\<close>, which
  reads the header of the encoded image and raises when the bytes are no image;
  the pixels that \<^verbatim>\<open>Image.convert\<close> produces, which loads the image data first and
  raises when the data is cut short or the conversion is not supported; and
  \<^verbatim>\<open>date.today().isoformat()\<close>.
\<close>

record env =
  zip_open :: "bytes \<Rightarrow> error + zipfile"
  image_open :: "bytes \<Rightarrow> error + image"
  convert_pixels :: "image \<Rightarrow> string \<Rightarrow> error + pixel list"
  today_iso :: string

text \<open>\<^verbatim>\<open>img.convert(m)\<close>: a new image of mode \<open>m\<close> and the same size, or the exception.\<close>

definition convert :: "env \<Rightarrow> image \<Rightarrow> string \<Rightarrow> error + image" where
  "convert E img m =
     (case convert_pixels E img m of
        Inl e \<Rightarrow> Inl e
      | Inr px \<Rightarrow> Inr \<lparr>mode = m, size_wh = size_wh img, pixels = px\<rparr>)"

text \<open>\<^verbatim>\<open>Image.new(mode, size, color)\<close>.\<close>

definition Image_new :: "string \<Rightarrow> nat \<times> nat \<Rightarrow> pixel \<Rightarrow> image" where
  "Image_new m sz color = \<lparr>mode = m, size_wh = sz, pixels = replicate (fst sz * snd sz) color\<rparr>"

definition getbands :: "string \<Rightarrow> nat" where
  "getbands m = (if m = ''RGBA'' \<or> m = ''CMYK'' \<or> m = ''RGBX'' \<or> m = ''RGBa'' then 4
                 else if m = ''RGB'' \<or> m = ''YCbCr'' \<or> m = ''LAB'' \<or> m = ''HSV'' then 3
                 else if m = ''LA'' \<or> m = ''PA'' \<or> m = ''La'' then 2 else 1)"

text \<open>\<^verbatim>\<open>img.split()\<close>: one single-band image of mode \<^verbatim>\<open>L\<close> for each band.\<close>

definition split_bands :: "image \<Rightarrow> image list" where
  "split_bands img = map (\<lambda>k. \<lparr>mode = ''L'', size_wh = size_wh img,
                                  pixels = map (\<lambda>p. [p ! k]) (pixels img)\<rparr>)
                         [0 ..< getbands (mode img)]"

text \<open>
  \<^verbatim>\<open>bg.paste(im, mask=m)\<close> with images of one size: each band of each pixel of \<open>bg\<close>
  becomes the blend of the old value and the value of \<open>im\<close>, weighted by the mask
  (255: the value of \<open>im\<close>, 0: the old value), in PIL's 8-bit arithmetic.
\<close>

definition div255 :: "nat \<Rightarrow> nat" where
  "div255 a = (let t = a + 128 in (t div 256 + t) div 256)"

definition blend :: "nat \<Rightarrow> nat \<Rightarrow> nat \<Rightarrow> nat" where
  "blend m old new = div255 (old * (255 - m) + new * m)"

definition paste :: "image \<Rightarrow> image \<Rightarrow> image \<Rightarrow> image" where
  "paste bg im msk = bg\<lparr>pixels :=
     map (\<lambda>(old, new, m). map (\<lambda>(oc, nc). blend (hd m) oc nc) (zip old new))
         (zip (pixels bg) (zip (pixels im) (pixels msk)))\<rparr>"

text \<open>
  \<^verbatim>\<open>img.save(buf, format="PNG")\<close> raises \<^verbatim>\<open>ValueError\<close> for an image of width or height
  zero (an empty image cannot be written). PNG is lossless: the buffer is represented by
  the image that was saved, and \<^verbatim>\<open>ImageReader(buf)\<close> by a reader over it.
\<close>

definition save_png :: "image \<Rightarrow> error + image" where
  "save_png img =
     (if fst (size_wh img) = 0 \<or> snd (size_wh img) = 0 then Inl ValueError else Inr img)"

datatype reader = ImageReader image

text \<open>
  \<^verbatim>\<open>ImageReader(buf)\<close> opens the buffer with \<^verbatim>\<open>Image.open\<close>, which refuses an image of
  more than twice \<^verbatim>\<open>Image.MAX_IMAGE_PIXELS\<close> pixels with a \<^verbatim>\<open>DecompressionBombError\<close>.
\<close>

definition MAX_IMAGE_PIXELS :: nat where
  "MAX_IMAGE_PIXELS = 89478485"

definition image_reader :: "image \<Rightarrow> error + reader" where
  "image_reader buf =
     (if 2 * MAX_IMAGE_PIXELS < fst (size_wh buf) * snd (size_wh buf)
      then Inl DecompressionBombError else Inr (ImageReader buf))"

subsection \<open>The ReportLab canvas\<close>

text \<open>
  A canvas is the document title, the operations of the page being drawn, and the pages
  already shown. \<^verbatim>\<open>save()\<close> shows the current page if anything was drawn on it and
  writes the document; the document is represented by its title and its pages, not by
  the bytes of the PDF. Writing encodes the title, and raises \<^verbatim>\<open>UnicodeEncodeError\<close>
  when the title holds a surrogate. A string drawn on a page is written with a
  replacement for what the font cannot encode: \<^verbatim>\<open>drawString\<close> does not raise.
\<close>

datatype op =
    SetFont string real
  | DrawString real real string
  | DrawImage reader real real real real string
  | Line real real real real

record canvas =
  pagesize :: "real \<times> real"
  info_title :: "string option"
  code :: "op list"
  shown :: "op list list"

record document =
  doc_title :: "string option"
  doc_pages :: "op list list"

definition letter :: "real \<times> real" where
  "letter = (612, 792)"

definition inch :: real where
  "inch = 72"

definition Canvas :: "real \<times> real \<Rightarrow> canvas" where
  "Canvas ps = \<lparr>pagesize = ps, info_title = None, code = [], shown = []\<rparr>"

definition setTitle :: "string \<Rightarrow> canvas \<Rightarrow> canvas" where
  "setTitle t c = c\<lparr>info_title := Some t\<rparr>"

definition setFont :: "string \<Rightarrow> real \<Rightarrow> canvas \<Rightarrow> canvas" where
  "setFont f sz c = c\<lparr>code := code c @ [SetFont f sz]\<rparr>"

definition drawString :: "real \<Rightarrow> real \<Rightarrow> string \<Rightarrow> canvas \<Rightarrow> canvas" where
  "drawString x y s c = c\<lparr>code := code c @ [DrawString x y s]\<rparr>"

definition drawImage :: "reader \<Rightarrow> real \<Rightarrow> real \<Rightarrow> real \<Rightarrow> real \<Rightarrow> string \<Rightarrow> canvas \<Rightarrow> canvas" where
  "drawImage r x y w h msk c = c\<lparr>code := code c @ [DrawImage r x y w h msk]\<rparr>"

definition line :: "real \<Rightarrow> real \<Rightarrow> real \<Rightarrow> real \<Rightarrow> canvas \<Rightarrow> canvas" where
  "line x1 y1 x2 y2 c = c\<lparr>code := code c @ [Line x1 y1 x2 y2]\<rparr>"

definition showPage :: "canvas \<Rightarrow> canvas" where
  "showPage c = c\<lparr>shown := shown c @ [code c], code := []\<rparr>"

definition save :: "canvas \<Rightarrow> error + document" where
  "save c =
     (let c' = (if code c \<noteq> [] then showPage c else c)
      in case info_title c' of
           None \<Rightarrow> Inr \<lparr>doc_title = None, doc_pages = shown c'\<rparr>
         | Some t \<Rightarrow>
            (if has_surrogate t then Inl UnicodeEncodeError
             else Inr \<lparr>doc_title = Some t, doc_pages = shown c'\<rparr>))"

section \<open>catalog\_app.py\<close>

subsection \<open>read\_zip\_images\<close>

definition is_image_name :: "string \<Rightarrow> bool" where
  "is_image_name name = endswith_any (lower name) [''.png'', ''.jpg'', ''.jpeg'']"

text \<open>
  The body of the loop for one name that passed the test of line 20:
  \<^verbatim>\<open>z.read(name)\<close>, \<^verbatim>\<open>Image.open\<close>, \<^verbatim>\<open>convert("RGBA")\<close>, each of which can raise.
\<close>

definition read_entry :: "env \<Rightarrow> zipfile \<Rightarrow> string \<Rightarrow> error + (string \<times> image)" where
  "read_entry E z name =
     (case zread z name of
        Inl e \<Rightarrow> Inl e
      | Inr b \<Rightarrow>
         (case image_open E b of
            Inl e \<Rightarrow> Inl e
          | Inr im \<Rightarrow>
             (case convert E im ''RGBA'' of
                Inl e \<Rightarrow> Inl e
              | Inr img \<Rightarrow> Inr (name, img))))"

fun read_loop :: "env \<Rightarrow> zipfile \<Rightarrow> string list \<Rightarrow> (string \<times> image) list
                   \<Rightarrow> error + (string \<times> image) list" where
  "read_loop E z [] out = Inr out"
| "read_loop E z (name # names) out =
     (if is_image_name name then
        (case read_entry E z name of
           Inl e \<Rightarrow> Inl e
         | Inr p \<Rightarrow> read_loop E z names (out @ [p]))
      else read_loop E z names out)"

definition read_zip_images :: "env \<Rightarrow> bytes \<Rightarrow> error + (string \<times> image) list" where
  "read_zip_images E zip_bytes =
     (case zip_open E zip_bytes of
        Inl e \<Rightarrow> Inl e
      | Inr z \<Rightarrow> read_loop E z (sort (namelist z)) [])"

subsection \<open>img\_to\_reader\<close>

definition img_to_reader :: "env \<Rightarrow> image \<Rightarrow> error + reader" where
  "img_to_reader E img =
     (case (if mode img = ''RGBA'' then
              (let bg = Image_new ''RGB'' (size_wh img) [255, 255, 255];
                   bg' = paste bg img (split_bands img ! 3)
               in Inr bg')
            else convert E img ''RGB'') of
        Inl e \<Rightarrow> Inl e
      | Inr img' \<Rightarrow>
         (case save_png img' of
            Inl e \<Rightarrow> Inl e
          | Inr buf \<Rightarrow> image_reader buf))"

subsection \<open>build\_catalog\_pdf\<close>

text \<open>Lines 52 to 74: the cover.\<close>

definition cover :: "env \<Rightarrow> image option \<Rightarrow> string \<Rightarrow> string \<Rightarrow> string \<Rightarrow> canvas
                      \<Rightarrow> error + canvas" where
  "cover E logo_img title subtitle footer c0 =
     (let W = fst letter; H = snd letter;
          c1 = setTitle title c0;
          c2 = setFont ''Helvetica-Bold'' 26 c1;
          c3 = drawString (fmul 1 inch) (fsub H (fmul (py_float (14 / 10)) inch)) title c2;
          c4 = setFont ''Helvetica'' 14 c3;
          c5 = drawString (fmul 1 inch) (fsub H (fmul (py_float (18 / 10)) inch)) subtitle c4;
          c6 = setFont ''Helvetica'' 11 c5;
          c7 = drawString (fmul 1 inch) (fsub H (fmul (py_float (22 / 10)) inch))
                 (''Generated: '' @ today_iso E) c6
      in case (case logo_img of
                 None \<Rightarrow> Inr c7
               | Some logo \<Rightarrow>
                  (case img_to_reader E logo of
                     Inl e \<Rightarrow> Inl e
                   | Inr lr \<Rightarrow>
                      (let logo_w = fmul (py_float (16 / 10)) inch;
                           logo_h = fmul 1 inch
                       in Inr (drawImage lr (fsub (fsub W logo_w) (fmul (py_float (8 / 10)) inch))
                                 (fsub (fsub H logo_h) (fmul (py_float (9 / 10)) inch))
                                 logo_w logo_h ''auto'' c7)))) of
           Inl e \<Rightarrow> Inl e
         | Inr c8 \<Rightarrow>
            (let c9 = line (fmul 1 inch) (fsub H (fmul (py_float (25 / 10)) inch))
                        (fsub W (fmul 1 inch)) (fsub H (fmul (py_float (25 / 10)) inch)) c8;
                 c10 = setFont ''Helvetica'' 10 c9;
                 c11 = drawString (fmul 1 inch) (fmul (py_float (8 / 10)) inch) footer c10
             in Inr (showPage c11)))"

text \<open>Lines 78 to 112: the body of the loop, for the entry \<open>(name, img)\<close> of index \<open>idx\<close>.\<close>

definition entry_page :: "env \<Rightarrow> image option \<Rightarrow> string \<Rightarrow> nat \<Rightarrow> string \<Rightarrow> image
                           \<Rightarrow> canvas \<Rightarrow> error + canvas" where
  "entry_page E logo_img footer idx name img c0 =
     (let W = fst letter; H = snd letter;
          c1 = setFont ''Helvetica-Bold'' 18 c0;
          c2 = drawString (fmul 1 inch) (fsub H (fmul 1 inch)) (''Design '' @ format_02d idx) c1;
          c3 = setFont ''Helvetica'' 10 c2;
          c4 = drawString (fmul 1 inch) (fsub H (fmul (py_float (125 / 100)) inch))
                 (''Source: '' @ name) c3
      in case (case logo_img of
                 None \<Rightarrow> Inr c4
               | Some logo \<Rightarrow>
                  (case img_to_reader E logo of
                     Inl e \<Rightarrow> Inl e
                   | Inr lr \<Rightarrow>
                      (let logo_w = fmul (py_float (12 / 10)) inch;
                           logo_h = fmul (py_float (75 / 100)) inch
                       in Inr (drawImage lr (fsub (fsub W logo_w) (fmul (py_float (8 / 10)) inch))
                                 (fsub (fsub H logo_h) (fmul (py_float (9 / 10)) inch))
                                 logo_w logo_h ''auto'' c4)))) of
           Inl e \<Rightarrow> Inl e
         | Inr c5 \<Rightarrow>
            (let margin_x = fmul 1 inch;
                 top_y = fsub H (fmul (py_float (16 / 10)) inch);
                 box_w = fsub W (fmul (float_of_nat 2) margin_x);
                 box_h = fsub H (fmul 3 inch)
             in case img_to_reader E img of
                  Inl e \<Rightarrow> Inl e
                | Inr ir \<Rightarrow>
                   (let iw = fst (size_wh img);
                        ih = snd (size_wh img)
                    in case truediv box_w (float_of_nat iw) of
                         Inl e \<Rightarrow> Inl e
                       | Inr qw \<Rightarrow>
                          (case truediv box_h (float_of_nat ih) of
                             Inl e \<Rightarrow> Inl e
                           | Inr qh \<Rightarrow>
                              (let scale = min qw qh;
                                   draw_w = fmul (float_of_nat iw) scale;
                                   draw_h = fmul (float_of_nat ih) scale;
                                   x = fadd margin_x (fl ((fsub box_w draw_w) / 2));
                                   y = fadd (fmul (py_float (12 / 10)) inch)
                                         (fl ((fsub box_h draw_h) / 2));
                                   c6 = drawImage ir x y draw_w draw_h ''auto'' c5;
                                   c7 = setFont ''Helvetica'' 10 c6;
                                   c8 = drawString (fmul 1 inch) (fmul (py_float (8 / 10)) inch)
                                          footer c7
                               in Inr (showPage c8))))))"

text \<open>The loop of line 77, \<^verbatim>\<open>enumerate(images, start=1)\<close>.\<close>

fun entry_pages :: "env \<Rightarrow> image option \<Rightarrow> string \<Rightarrow> nat \<Rightarrow> (string \<times> image) list
                     \<Rightarrow> canvas \<Rightarrow> error + canvas" where
  "entry_pages E logo_img footer idx [] c = Inr c"
| "entry_pages E logo_img footer idx ((name, img) # rest) c =
     (case entry_page E logo_img footer idx name img c of
        Inl e \<Rightarrow> Inl e
      | Inr c' \<Rightarrow> entry_pages E logo_img footer (Suc idx) rest c')"

definition build_catalog_pdf :: "env \<Rightarrow> image option \<Rightarrow> (string \<times> image) list
                                  \<Rightarrow> string \<Rightarrow> string \<Rightarrow> string \<Rightarrow> error + document" where
  "build_catalog_pdf E logo_img images title subtitle footer =
     (let c = Canvas letter
      in case cover E logo_img title subtitle footer c of
           Inl e \<Rightarrow> Inl e
         | Inr c' \<Rightarrow>
            (case entry_pages E logo_img footer 1 images c' of
               Inl e \<Rightarrow> Inl e
             | Inr c'' \<Rightarrow> save c''))"

section \<open>Reading a document\<close>






text \<open>The rectangles (x, y, width, height) of the images a page draws.\<close>

fun op_rect :: "op \<Rightarrow> (real \<times> real \<times> real \<times> real) list" where
  "op_rect (DrawImage r x y w h m) = [(x, y, w, h)]"
| "op_rect (DrawString x y s) = []"
| "op_rect (SetFont f sz) = []"
| "op_rect (Line x1 y1 x2 y2) = []"

definition page_rects :: "op list \<Rightarrow> (real \<times> real \<times> real \<times> real) list" where
  "page_rects p = concat (map op_rect p)"

text \<open>
  The operations of the cover and of an entry page: what the code draws on a fresh
  canvas (no operations when the page raises).
\<close>

definition cover_ops :: "env \<Rightarrow> image option \<Rightarrow> string \<Rightarrow> string \<Rightarrow> string \<Rightarrow> op list" where
  "cover_ops E logo_img title subtitle footer =
     (case cover E logo_img title subtitle footer (Canvas letter) of
        Inl e \<Rightarrow> []
      | Inr c \<Rightarrow> concat (shown c))"

definition entry_ops :: "env \<Rightarrow> image option \<Rightarrow> string \<Rightarrow> nat \<Rightarrow> string \<Rightarrow> image \<Rightarrow> op list" where
  "entry_ops E logo_img footer idx name img =
     (case entry_page E logo_img footer idx name img (Canvas letter) of
        Inl e \<Rightarrow> []
      | Inr c \<Rightarrow> concat (shown c))"

definition nondegenerate :: "image \<Rightarrow> bool" where
  "nondegenerate img = (0 < fst (size_wh img) \<and> 0 < snd (size_wh img))"

text \<open>
  An image can be embedded when it is not empty, has no more pixels than
  \<^verbatim>\<open>ImageReader\<close> accepts and, if its mode is not \<^verbatim>\<open>RGBA\<close>, the library converts it to
  \<^verbatim>\<open>RGB\<close>; a logo can when it is absent or can be embedded.
\<close>

definition embeddable :: "env \<Rightarrow> image \<Rightarrow> bool" where
  "embeddable E img =
     (nondegenerate img
      \<and> fst (size_wh img) * snd (size_wh img) \<le> 2 * MAX_IMAGE_PIXELS
      \<and> (mode img = ''RGBA'' \<or> \<not> isl (convert_pixels E img ''RGB'')))"

definition logo_ok :: "env \<Rightarrow> image option \<Rightarrow> bool" where
  "logo_ok E logo_img = (case logo_img of None \<Rightarrow> True | Some l \<Rightarrow> embeddable E l)"



text \<open>
  An image is well formed when it has one pixel for each position, each with one value
  in 0..255 for each band of the mode. \<open>over_white\<close> is an \<^verbatim>\<open>RGBA\<close> pixel composited
  on white: each colour band blended with 255 by the alpha band.
\<close>

definition well_formed :: "image \<Rightarrow> bool" where
  "well_formed img =
     (length (pixels img) = fst (size_wh img) * snd (size_wh img)
      \<and> list_all (\<lambda>p. length p = getbands (mode img) \<and> list_all (\<lambda>v. v \<le> 255) p) (pixels img))"

text \<open>What \<^verbatim>\<open>Image.convert\<close> promises: the image it returns is well formed in its mode.\<close>

definition convert_contract :: "env \<Rightarrow> bool" where
  "convert_contract E =
     (\<forall>img m px. convert_pixels E img m = Inr px \<longrightarrow>
        well_formed \<lparr>mode = m, size_wh = size_wh img, pixels = px\<rparr>)"


section \<open>The specification's words\<close>

text \<open>
  A name ends in a suffix case-insensitively when its last characters are those of the
  suffix, each one the same character or the capital of the suffix's small letter. The
  recognized suffixes are \<^verbatim>\<open>.png\<close>, \<^verbatim>\<open>.jpg\<close> and \<^verbatim>\<open>.jpeg\<close>. These definitions
  follow the specification, not the source: they use neither \<open>lower\<close> nor \<open>endswith\<close>.
\<close>

definition same_letter :: "char \<Rightarrow> char \<Rightarrow> bool" where
  "same_letter c d = (c = d \<or> ((97 :: nat) \<le> of_char d \<and> of_char d \<le> (122 :: nat)
                               \<and> of_char d = of_char c + (32 :: nat)))"

definition ends_with_ignoring_case :: "string \<Rightarrow> string \<Rightarrow> bool" where
  "ends_with_ignoring_case s suf =
     (length suf \<le> length s \<and> list_all2 same_letter (drop (length s - length suf) s) suf)"

definition recognized_image_name :: "string \<Rightarrow> bool" where
  "recognized_image_name n = (ends_with_ignoring_case n ''.png''
     \<or> ends_with_ignoring_case n ''.jpg'' \<or> ends_with_ignoring_case n ''.jpeg'')"

section \<open>Concrete inputs\<close>

text \<open>
  A small archive reader, decoder and pixel conversion, to run the program on concrete
  inputs. An encoded image is the two bytes width, height; three bytes are an image whose
  data is cut short, which opens and fails to load; anything else is no image. The
  conversion to \<^verbatim>\<open>RGB\<close> or \<^verbatim>\<open>RGBA\<close> (no other is asked for) makes colour pixels, grey
  expanded to three bands, the alpha band taken from the source when it has one and
  opaque otherwise. Archive \<open>[1]\<close> holds four images
  (two with suffixes in upper case, one \<^verbatim>\<open>.jpeg\<close>), a text file, a directory and two
  names that only resemble a suffix; archives \<open>[2]\<close> and \<open>[3]\<close> hold an image and an entry
  with an image suffix that is no image, or is cut short.
\<close>

definition toy_decode :: "bytes \<Rightarrow> error + image" where
  "toy_decode b = (case b of
      [w, h] \<Rightarrow> Inr \<lparr>mode = ''RGB'', size_wh = (w, h), pixels = replicate (w * h) [10, 20, 30]\<rparr>
    | [w, h, t] \<Rightarrow> Inr \<lparr>mode = ''RGB'', size_wh = (w, h), pixels = []\<rparr>
    | _ \<Rightarrow> Inl UnidentifiedImageError)"

definition toy_zip :: "bytes \<Rightarrow> error + zipfile" where
  "toy_zip b =
     (if b = [1] then
        Inr \<lparr>namelist = [''b.png'', ''notes.txt'', ''a.jpg'', ''dir/'', ''C.PNG'', ''d.JpEg'',
                          ''png'', ''e.png.txt''],
             zread = (\<lambda>n. if n = ''b.png'' then Inr [10, 20]
                           else if n = ''a.jpg'' then Inr [20, 10]
                           else if n = ''C.PNG'' then Inr [3, 4]
                           else if n = ''d.JpEg'' then Inr [5, 6]
                           else if n \<in> set [''notes.txt'', ''dir/'', ''png'', ''e.png.txt'']
                             then Inr [] else Inl (KeyError n))\<rparr>
      else if b = [2] then
        Inr \<lparr>namelist = [''b.png'', ''c.PNG''],
             zread = (\<lambda>n. if n = ''b.png'' then Inr [10, 20]
                           else if n = ''c.PNG'' then Inr [0] else Inl (KeyError n))\<rparr>
      else if b = [3] then
        Inr \<lparr>namelist = [''b.png'', ''t.jpg''],
             zread = (\<lambda>n. if n = ''b.png'' then Inr [10, 20]
                           else if n = ''t.jpg'' then Inr [8, 8, 0] else Inl (KeyError n))\<rparr>
      else Inl BadZipFile)"

definition toy_pixel :: "string \<Rightarrow> string \<Rightarrow> pixel \<Rightarrow> pixel" where
  "toy_pixel src m p =
     (let v = (case p of [] \<Rightarrow> 0 | x # xs \<Rightarrow> x);
          rgb = (if 3 \<le> length p then take 3 p else [v, v, v]);
          alpha = (if p \<noteq> [] \<and> (src = ''RGBA'' \<or> src = ''LA'') then last p else 255)
      in map (min 255) (take (getbands m) (rgb @ [alpha])))"

definition toy_convert :: "image \<Rightarrow> string \<Rightarrow> error + pixel list" where
  "toy_convert img m =
     (if m \<noteq> ''RGB'' \<and> m \<noteq> ''RGBA'' then Inl ValueError
      else if length (pixels img) \<noteq> fst (size_wh img) * snd (size_wh img) then Inl OSError
      else Inr (map (toy_pixel (mode img) m) (pixels img)))"

definition env0 :: env where
  "env0 = \<lparr>zip_open = toy_zip, image_open = toy_decode, convert_pixels = toy_convert,
           today_iso = ''2026-01-01''\<rparr>"

definition img_wide :: image where
  "img_wide = \<lparr>mode = ''RGBA'', size_wh = (20, 10), pixels = replicate 200 [10, 20, 30, 255]\<rparr>"

definition img_tall :: image where
  "img_tall = \<lparr>mode = ''RGBA'', size_wh = (10, 20), pixels = replicate 200 [10, 20, 30, 255]\<rparr>"

definition img_empty :: image where
  "img_empty = \<lparr>mode = ''RGBA'', size_wh = (0, 5), pixels = []\<rparr>"

definition img_23 :: image where
  "img_23 = \<lparr>mode = ''RGBA'', size_wh = (23, 1), pixels = replicate 23 [10, 20, 30, 255]\<rparr>"

text \<open>A logo of an opaque, a transparent and a half transparent pixel of one colour.\<close>

definition logo0 :: image where
  "logo0 = \<lparr>mode = ''RGBA'', size_wh = (3, 1),
            pixels = [[200, 100, 0, 255], [200, 100, 0, 0], [200, 100, 0, 128]]\<rparr>"


text \<open>A title that is the one code point U+D800, a surrogate.\<close>

definition surrogate_title :: string where
  "surrogate_title = [CHR 0xED, CHR 0xA0, CHR 0x80]"

section \<open>Rounding\<close>

text \<open>The binary exponent brackets its argument, and rounding moves a number by at most
  half a unit in the last place: a relative error of \<open>2 ^ -53\<close>.\<close>

lemma pow2_pos: "0 < pow2 e"
  by (simp add: pow2_def)

lemma pow2_powr: "pow2 e = 2 powr (of_int e)"
proof (cases "0 \<le> e")
  case True
  then show ?thesis
    by (simp add: pow2_def powr_realpow[symmetric])
next
  case False
  then have "pow2 e = 1 / 2 ^ nat (- e)" by (simp add: pow2_def)
  also have "\<dots> = 1 / 2 powr (of_int (- e))"
    using False by (simp add: powr_realpow[symmetric])
  also have "\<dots> = 2 powr (of_int e)"
    by (simp add: powr_minus field_simps)
  finally show ?thesis .
qed

lemma pow2_add: "pow2 (a + b) = pow2 a * pow2 b"
  by (simp add: pow2_powr powr_add)

lemma pow2_mono: "a \<le> b \<Longrightarrow> pow2 a \<le> pow2 b"
  by (simp add: pow2_powr)

lemma expo_lower: assumes "x \<noteq> 0" shows "pow2 (expo x) \<le> \<bar>x\<bar>"
proof (cases "1 \<le> \<bar>x\<bar>")
  case True
  define n where "n = nat \<lfloor>\<bar>x\<bar>\<rfloor>"
  have n: "0 < n" using True by (simp add: n_def)
  have e: "expo x = int (floorlog 2 n) - 1" using True by (simp add: expo_def n_def)
  have "floorlog 2 n \<noteq> 0" using n by (simp add: floorlog_eq_zero_iff)
  then have fl0: "0 < floorlog 2 n" by simp
  have "2 ^ (floorlog 2 n - 1) \<le> n" using floorlog_bounds[of n 2] n by simp
  then have "(2::real) ^ (floorlog 2 n - 1) \<le> real n"
    by (metis of_nat_le_iff of_nat_numeral of_nat_power)
  also have "real n \<le> \<bar>x\<bar>" using True by (simp add: n_def)
  finally have "(2::real) ^ (floorlog 2 n - 1) \<le> \<bar>x\<bar>" .
  moreover have "pow2 (expo x) = 2 ^ (floorlog 2 n - 1)"
    using fl0 by (simp add: e pow2_def nat_diff_distrib')
  ultimately show ?thesis by linarith
next
  case False
  then have lt: "\<bar>x\<bar> < 1" by simp
  have pos: "0 < \<bar>x\<bar>" using assms by simp
  define n where "n = nat \<lceil>1 / \<bar>x\<bar>\<rceil>"
  define j where "j = floorlog 2 (n - 1)"
  have e: "expo x = - int j" using False by (simp add: expo_def n_def j_def)
  have "1 < 1 / \<bar>x\<bar>" using lt pos by simp
  then have n2: "2 \<le> n" unfolding n_def by linarith
  have "n - 1 < 2 ^ j" using floorlog_bounds[of "n - 1" 2] n2 by (simp add: j_def)
  then have "n \<le> 2 ^ j" by simp
  then have "real n \<le> 2 ^ j"
    by (metis of_nat_le_iff of_nat_numeral of_nat_power)
  moreover have "1 / \<bar>x\<bar> \<le> real n" unfolding n_def by linarith
  ultimately have "1 / \<bar>x\<bar> \<le> 2 ^ j" by linarith
  then have "1 / 2 ^ j \<le> \<bar>x\<bar>" using pos by (simp add: field_simps)
  moreover have "pow2 (expo x) = 1 / 2 ^ j"
    by (cases "j = 0") (simp_all add: e pow2_def)
  ultimately show ?thesis by simp
qed

lemma expo_upper: assumes "x \<noteq> 0" shows "\<bar>x\<bar> < pow2 (expo x + 1)"
proof (cases "1 \<le> \<bar>x\<bar>")
  case True
  define n where "n = nat \<lfloor>\<bar>x\<bar>\<rfloor>"
  have n: "0 < n" using True by (simp add: n_def)
  have e: "expo x = int (floorlog 2 n) - 1" using True by (simp add: expo_def n_def)
  have "n < 2 ^ floorlog 2 n" using floorlog_bounds[of n 2] n by simp
  then have "n + 1 \<le> 2 ^ floorlog 2 n" by simp
  then have "real (n + 1) \<le> 2 ^ floorlog 2 n"
    by (metis of_nat_le_iff of_nat_numeral of_nat_power)
  moreover have "\<bar>x\<bar> < real (n + 1)" unfolding n_def by linarith
  ultimately have "\<bar>x\<bar> < 2 ^ floorlog 2 n" by linarith
  moreover have "pow2 (expo x + 1) = 2 ^ floorlog 2 n"
    by (simp add: e pow2_def)
  ultimately show ?thesis by simp
next
  case False
  then have lt: "\<bar>x\<bar> < 1" by simp
  have pos: "0 < \<bar>x\<bar>" using assms by simp
  define n where "n = nat \<lceil>1 / \<bar>x\<bar>\<rceil>"
  define j where "j = floorlog 2 (n - 1)"
  have e: "expo x = - int j" using False by (simp add: expo_def n_def j_def)
  have "1 < 1 / \<bar>x\<bar>" using lt pos by simp
  then have n2: "2 \<le> n" unfolding n_def by linarith
  have "j \<noteq> 0" using n2 by (simp add: j_def floorlog_eq_zero_iff)
  then have j0: "0 < j" by simp
  have "2 ^ (j - 1) \<le> n - 1" using floorlog_bounds[of "n - 1" 2] n2 by (simp add: j_def)
  then have "real (2 ^ (j - 1)) \<le> real (n - 1)" by (simp only: of_nat_le_iff)
  then have "(2::real) ^ (j - 1) \<le> real n - 1" using n2 by (simp add: of_nat_diff)
  moreover have "real n = of_int \<lceil>1 / \<bar>x\<bar>\<rceil>" using pos by (simp add: n_def)
  then have "real n - 1 < 1 / \<bar>x\<bar>" by linarith
  ultimately have "2 ^ (j - 1) < 1 / \<bar>x\<bar>" by linarith
  then have "\<bar>x\<bar> < 1 / 2 ^ (j - 1)" using pos by (simp add: field_simps)
  moreover have "pow2 (expo x + 1) = 1 / 2 ^ (j - 1)"
    using j0 by (cases "j = 1") (simp_all add: e pow2_def nat_diff_distrib')
  ultimately show ?thesis by simp
qed

lemma round_even_err: "\<bar>of_int (round_even y) - y\<bar> \<le> 1 / 2"
  unfolding round_even_def Let_def by (simp; linarith)

lemma fl_error: "\<bar>fl x - x\<bar> \<le> \<bar>x\<bar> / 2 ^ 53"
proof (cases "x = 0")
  case True
  then show ?thesis by (simp add: fl_def)
next
  case False
  define u where "u = pow2 (expo x - 52)"
  have u: "0 < u" by (simp add: u_def pow2_pos)
  have flx: "fl x = of_int (round_even (x / u)) * u"
    using False by (simp add: fl_def u_def Let_def)
  have "fl x - x = (of_int (round_even (x / u)) - x / u) * u"
    using u by (simp add: flx algebra_simps)
  then have "\<bar>fl x - x\<bar> = \<bar>of_int (round_even (x / u)) - x / u\<bar> * u"
    using u by (simp add: abs_mult)
  also have "\<dots> \<le> 1 / 2 * u"
    using round_even_err[of "x / u"] u by (simp add: mult_right_mono)
  also have "u = pow2 (expo x) / 2 ^ 52"
    by (simp add: u_def pow2_powr powr_diff)
  also have "1 / 2 * (pow2 (expo x) / 2 ^ 52) = pow2 (expo x) / 2 ^ 53" by simp
  also have "\<dots> \<le> \<bar>x\<bar> / 2 ^ 53"
    using expo_lower[OF False] by (simp add: divide_right_mono)
  finally show ?thesis .
qed


lemma fl_zero_iff: "fl x = 0 \<longleftrightarrow> x = 0"
proof
  assume z: "fl x = 0"
  show "x = 0"
  proof (rule ccontr)
    assume nz: "x \<noteq> 0"
    have "\<bar>x\<bar> \<le> \<bar>x\<bar> / 2 ^ 53" using fl_error[of x] z by simp
    moreover have "\<bar>x\<bar> / 2 ^ 53 < \<bar>x\<bar>" using nz by simp
    ultimately show False by linarith
  qed
qed (simp add: fl_def)

lemma fl_upper: assumes "0 \<le> x" shows "fl x \<le> x * (1 + 1 / 2 ^ 53)"
proof -
  have "fl x - x \<le> \<bar>x\<bar> / 2 ^ 53" using fl_error[of x] by linarith
  then show ?thesis using assms by (simp add: algebra_simps)
qed

lemma fl_lower: assumes "0 \<le> x" shows "x * (1 - 1 / 2 ^ 53) \<le> fl x"
proof -
  have "x - fl x \<le> \<bar>x\<bar> / 2 ^ 53" using fl_error[of x] by linarith
  then show ?thesis using assms by (simp add: algebra_simps)
qed

lemma fl_pos: assumes "0 < x" shows "0 < fl x"
proof -
  have "0 < x * (1 - 1 / 2 ^ 53)" using assms by simp
  then show ?thesis using fl_lower[of x] assms by linarith
qed

lemma float_of_nat_zero_iff: "float_of_nat n = 0 \<longleftrightarrow> n = 0"
  by (simp add: float_of_nat_def fl_zero_iff)

lemma float_of_nat_pos: "0 < n \<Longrightarrow> 0 < float_of_nat n"
  by (simp add: float_of_nat_def fl_pos)

section \<open>Embedding an image\<close>


lemma img_to_reader_Inr:
  assumes "img_to_reader E img = Inr r"
  shows "nondegenerate img \<and> (\<exists>im. r = ImageReader im \<and> mode im = ''RGB'' \<and> size_wh im = size_wh img)"
  using assms
  by (auto simp: img_to_reader_def save_png_def image_reader_def convert_def Image_new_def paste_def
      Let_def nondegenerate_def split: if_splits sum.splits)

lemma img_to_reader_embeddable:
  "(\<exists>r. img_to_reader E img = Inr r) \<longleftrightarrow> embeddable E img"
  by (cases "convert_pixels E img ''RGB''")
     (auto simp: img_to_reader_def save_png_def image_reader_def convert_def Image_new_def paste_def
      Let_def nondegenerate_def embeddable_def split: if_splits sum.splits)



lemma embeddableE:
  assumes "embeddable E img"
  obtains r where "img_to_reader E img = Inr r"
  using assms img_to_reader_embeddable by blast

lemma not_embeddableE:
  assumes "\<not> embeddable E img"
  obtains e where "img_to_reader E img = Inl e"
  using assms img_to_reader_embeddable[of E img] by (cases "img_to_reader E img") auto

section \<open>The pages of a document\<close>

lemmas canvas_defs = setTitle_def setFont_def drawString_def drawImage_def line_def showPage_def Canvas_def

lemma cover_frame:
  assumes "logo_ok E logo"
  shows "cover E logo t s f c =
     Inr (c\<lparr>info_title := Some t, shown := shown c @ [code c @ cover_ops E logo t s f], code := []\<rparr>)"
proof (cases logo)
  case None
  then show ?thesis
    unfolding cover_ops_def cover_def Let_def canvas_defs by simp
next
  case (Some l)
  with assms have "embeddable E l" by (simp add: logo_ok_def)
  then obtain lr where lr: "img_to_reader E l = Inr lr" by (rule embeddableE)
  show ?thesis
    unfolding cover_ops_def cover_def Let_def canvas_defs by (simp add: Some lr)
qed

lemma cover_fail:
  assumes "img_to_reader E l = Inl e"
  shows "cover E (Some l) t s f c = Inl e"
  unfolding cover_def Let_def by (simp add: assms)

lemma entry_page_ok:
  assumes "logo_ok E logo" and "embeddable E img"
  shows "entry_page E logo f idx name img c =
     Inr (c\<lparr>shown := shown c @ [code c @ entry_ops E logo f idx name img], code := []\<rparr>)"
proof -
  obtain ir where ir: "img_to_reader E img = Inr ir" using assms(2) by (rule embeddableE)
  have "nondegenerate img" using assms(2) by (simp add: embeddable_def)
  then have nz: "float_of_nat (fst (size_wh img)) \<noteq> 0" "float_of_nat (snd (size_wh img)) \<noteq> 0"
    by (simp_all add: nondegenerate_def float_of_nat_zero_iff)
  show ?thesis
  proof (cases logo)
    case None
    then show ?thesis
      unfolding entry_ops_def entry_page_def truediv_def Let_def canvas_defs
      using nz ir by simp
  next
    case (Some l)
    with assms have "embeddable E l" by (simp add: logo_ok_def)
    then obtain lr where lr: "img_to_reader E l = Inr lr" by (rule embeddableE)
    show ?thesis
      unfolding entry_ops_def entry_page_def truediv_def Let_def canvas_defs
      using nz ir lr by (simp add: Some)
  qed
qed

lemma entry_page_fail:
  assumes "logo_ok E logo" and "img_to_reader E img = Inl e"
  shows "entry_page E logo f idx name img c = Inl e"
proof (cases logo)
  case None
  then show ?thesis unfolding entry_page_def Let_def by (simp add: assms(2))
next
  case (Some l)
  with assms have "embeddable E l" by (simp add: logo_ok_def)
  then obtain lr where lr: "img_to_reader E l = Inr lr" by (rule embeddableE)
  show ?thesis unfolding entry_page_def Let_def by (simp add: Some lr assms(2))
qed

lemma entry_pages_ok:
  "logo_ok E logo \<Longrightarrow> \<forall>p \<in> set images. embeddable E (snd p) \<Longrightarrow> code c = [] \<Longrightarrow>
   entry_pages E logo f idx images c =
     Inr (c\<lparr>shown := shown c @
            map (\<lambda>(i, name, img). entry_ops E logo f i name img) (enumerate idx images)\<rparr>)"
proof (induction images arbitrary: idx c)
  case Nil
  then show ?case by simp
next
  case (Cons p images)
  obtain name img where p: "p = (name, img)" by (cases p)
  define c' where "c' = c\<lparr>shown := shown c @ [code c @ entry_ops E logo f idx name img], code := []\<rparr>"
  have nd: "embeddable E img" using Cons.prems(2) p by simp
  have rest: "\<forall>q \<in> set images. embeddable E (snd q)" using Cons.prems(2) by simp
  have c': "code c' = []" by (simp add: c'_def)
  have "entry_pages E logo f idx (p # images) c = entry_pages E logo f (Suc idx) images c'"
    by (simp add: p entry_page_ok[OF Cons.prems(1) nd] c'_def)
  also have "\<dots> = Inr (c'\<lparr>shown := shown c' @
            map (\<lambda>(i, name, img). entry_ops E logo f i name img) (enumerate (Suc idx) images)\<rparr>)"
    by (rule Cons.IH[OF Cons.prems(1) rest c'])
  also have "\<dots> = Inr (c\<lparr>shown := shown c @
            map (\<lambda>(i, name, img). entry_ops E logo f i name img) (enumerate idx (p # images))\<rparr>)"
    using Cons.prems(3) by (simp add: c'_def p)
  finally show ?case .
qed

lemma entry_pages_fail:
  "logo_ok E logo \<Longrightarrow> \<exists>p \<in> set images. \<not> embeddable E (snd p) \<Longrightarrow>
   \<exists>e img. entry_pages E logo f idx images c = Inl e
      \<and> img \<in> snd ` set images \<and> img_to_reader E img = Inl e"
proof (induction images arbitrary: idx c)
  case Nil
  then show ?case by simp
next
  case (Cons p images)
  obtain name img where p: "p = (name, img)" by (cases p)
  show ?case
  proof (cases "embeddable E img")
    case True
    with Cons.prems(2) p have "\<exists>q \<in> set images. \<not> embeddable E (snd q)" by auto
    from Cons.IH[OF Cons.prems(1) this] show ?thesis
      by (simp add: p entry_page_ok[OF Cons.prems(1) True]) blast
  next
    case False
    then obtain e where e: "img_to_reader E img = Inl e" by (rule not_embeddableE)
    have "entry_pages E logo f idx (p # images) c = Inl e"
      by (simp add: p entry_page_fail[OF Cons.prems(1) e])
    then show ?thesis using e p by force
  qed
qed

lemma build_ok:
  assumes "logo_ok E logo" and "\<forall>p \<in> set images. embeddable E (snd p)" and "\<not> has_surrogate t"
  shows "build_catalog_pdf E logo images t s f =
     Inr \<lparr>doc_title = Some t,
          doc_pages = cover_ops E logo t s f #
            map (\<lambda>(i, name, img). entry_ops E logo f i name img) (enumerate 1 images)\<rparr>"
  unfolding build_catalog_pdf_def Let_def
  by (simp add: cover_frame[OF assms(1)] entry_pages_ok[OF assms(1,2)] save_def Canvas_def assms(3))

lemma build_surrogate:
  assumes "logo_ok E logo" and "\<forall>p \<in> set images. embeddable E (snd p)" and "has_surrogate t"
  shows "build_catalog_pdf E logo images t s f = Inl UnicodeEncodeError"
  unfolding build_catalog_pdf_def Let_def
  by (simp add: cover_frame[OF assms(1)] entry_pages_ok[OF assms(1,2)] save_def Canvas_def assms(3))

lemma build_logo_fail:
  assumes "img_to_reader E l = Inl e"
  shows "build_catalog_pdf E (Some l) images t s f = Inl e"
  unfolding build_catalog_pdf_def Let_def by (simp add: cover_fail[OF assms])

lemma build_entry_fail:
  assumes "logo_ok E logo" and "\<exists>p \<in> set images. \<not> embeddable E (snd p)"
  shows "\<exists>e img. build_catalog_pdf E logo images t s f = Inl e
      \<and> img \<in> snd ` set images \<and> img_to_reader E img = Inl e"
proof -
  from entry_pages_fail[OF assms, of f 1
      "(Canvas letter)\<lparr>info_title := Some t,
         shown := shown (Canvas letter) @ [code (Canvas letter) @ cover_ops E logo t s f], code := []\<rparr>"]
  obtain e img where
    "entry_pages E logo f 1 images ((Canvas letter)\<lparr>info_title := Some t,
         shown := shown (Canvas letter) @ [code (Canvas letter) @ cover_ops E logo t s f], code := []\<rparr>) = Inl e"
    "img \<in> snd ` set images" "img_to_reader E img = Inl e" by blast
  then show ?thesis
    unfolding build_catalog_pdf_def Let_def by (auto simp: cover_frame[OF assms(1)])
qed

text \<open>Every way in which the call ends.\<close>

lemma build_cases:
  "(logo_ok E logo \<and> (\<forall>p \<in> set images. embeddable E (snd p)) \<and> \<not> has_surrogate t
      \<and> build_catalog_pdf E logo images t s f =
          Inr \<lparr>doc_title = Some t,
               doc_pages = cover_ops E logo t s f #
                 map (\<lambda>(i, name, img). entry_ops E logo f i name img) (enumerate 1 images)\<rparr>)
   \<or> (logo_ok E logo \<and> (\<forall>p \<in> set images. embeddable E (snd p)) \<and> has_surrogate t
      \<and> build_catalog_pdf E logo images t s f = Inl UnicodeEncodeError)
   \<or> (\<exists>e img. (logo = Some img \<or> img \<in> snd ` set images)
      \<and> img_to_reader E img = Inl e
      \<and> build_catalog_pdf E logo images t s f = Inl e)"
proof (cases "logo_ok E logo")
  case False
  then obtain l where l: "logo = Some l" "\<not> embeddable E l"
    by (cases logo) (auto simp: logo_ok_def)
  then obtain e where "img_to_reader E l = Inl e" by (auto elim: not_embeddableE)
  then show ?thesis using build_logo_fail[of E l e images t s f] l by blast
next
  case True
  show ?thesis
  proof (cases "\<forall>p \<in> set images. embeddable E (snd p)")
    case False
    then have "\<exists>p \<in> set images. \<not> embeddable E (snd p)" by blast
    from build_entry_fail[OF True this, of t s f] show ?thesis by blast
  next
    case all: True
    show ?thesis
    proof (cases "has_surrogate t")
      case True
      then show ?thesis using build_surrogate[OF \<open>logo_ok E logo\<close> all True] \<open>logo_ok E logo\<close> all by blast
    next
      case False
      then show ?thesis using build_ok[OF \<open>logo_ok E logo\<close> all False] \<open>logo_ok E logo\<close> all by blast
    qed
  qed
qed

lemma build_Inr:
  assumes "build_catalog_pdf E logo images t s f = Inr doc"
  shows "logo_ok E logo \<and> (\<forall>p \<in> set images. embeddable E (snd p)) \<and> \<not> has_surrogate t
       \<and> doc = \<lparr>doc_title = Some t,
               doc_pages = cover_ops E logo t s f #
                 map (\<lambda>(i, name, img). entry_ops E logo f i name img) (enumerate 1 images)\<rparr>"
  using build_cases[of E logo images t s f] assms by auto

lemma cover_ops_form:
  assumes "logo_ok E logo"
  shows "cover_ops E logo t s f =
     [SetFont ''Helvetica-Bold'' 26,
      DrawString (fmul 1 inch) (fsub (snd letter) (fmul (py_float (14 / 10)) inch)) t,
      SetFont ''Helvetica'' 14,
      DrawString (fmul 1 inch) (fsub (snd letter) (fmul (py_float (18 / 10)) inch)) s,
      SetFont ''Helvetica'' 11,
      DrawString (fmul 1 inch) (fsub (snd letter) (fmul (py_float (22 / 10)) inch))
        (''Generated: '' @ today_iso E)]
     @ (case logo of None \<Rightarrow> [] | Some l \<Rightarrow>
          (case img_to_reader E l of Inl e \<Rightarrow> [] | Inr lr \<Rightarrow>
            [DrawImage lr
               (fsub (fsub (fst letter) (fmul (py_float (16 / 10)) inch)) (fmul (py_float (8 / 10)) inch))
               (fsub (fsub (snd letter) (fmul 1 inch)) (fmul (py_float (9 / 10)) inch))
               (fmul (py_float (16 / 10)) inch) (fmul 1 inch) ''auto'']))
     @ [Line (fmul 1 inch) (fsub (snd letter) (fmul (py_float (25 / 10)) inch))
          (fsub (fst letter) (fmul 1 inch)) (fsub (snd letter) (fmul (py_float (25 / 10)) inch)),
        SetFont ''Helvetica'' 10,
        DrawString (fmul 1 inch) (fmul (py_float (8 / 10)) inch) f]"
proof (cases logo)
  case None
  then show ?thesis
    unfolding cover_ops_def cover_def Let_def canvas_defs by simp
next
  case (Some l)
  with assms have "embeddable E l" by (simp add: logo_ok_def)
  then obtain lr where lr: "img_to_reader E l = Inr lr" by (rule embeddableE)
  show ?thesis
    unfolding cover_ops_def cover_def Let_def canvas_defs by (simp add: Some lr)
qed

lemma entry_ops_form:
  assumes "logo_ok E logo" and "img_to_reader E img = Inr ir"
  shows "entry_ops E logo f idx name img =
     [SetFont ''Helvetica-Bold'' 18,
      DrawString (fmul 1 inch) (fsub (snd letter) (fmul 1 inch)) (''Design '' @ format_02d idx),
      SetFont ''Helvetica'' 10,
      DrawString (fmul 1 inch) (fsub (snd letter) (fmul (py_float (125 / 100)) inch))
        (''Source: '' @ name)]
     @ (case logo of None \<Rightarrow> [] | Some l \<Rightarrow>
          (case img_to_reader E l of Inl e \<Rightarrow> [] | Inr lr \<Rightarrow>
            [DrawImage lr
               (fsub (fsub (fst letter) (fmul (py_float (12 / 10)) inch)) (fmul (py_float (8 / 10)) inch))
               (fsub (fsub (snd letter) (fmul (py_float (75 / 100)) inch)) (fmul (py_float (9 / 10)) inch))
               (fmul (py_float (12 / 10)) inch) (fmul (py_float (75 / 100)) inch) ''auto'']))
     @ [DrawImage ir
          (fadd (fmul 1 inch)
             (fl (fsub (fsub (fst letter) (fmul (float_of_nat 2) (fmul 1 inch)))
                    (fmul (float_of_nat (fst (size_wh img)))
                       (min (fl (fsub (fst letter) (fmul (float_of_nat 2) (fmul 1 inch))
                                   / float_of_nat (fst (size_wh img))))
                            (fl (fsub (snd letter) (fmul 3 inch) / float_of_nat (snd (size_wh img))))))
                  / 2)))
          (fadd (fmul (py_float (12 / 10)) inch)
             (fl (fsub (fsub (snd letter) (fmul 3 inch))
                    (fmul (float_of_nat (snd (size_wh img)))
                       (min (fl (fsub (fst letter) (fmul (float_of_nat 2) (fmul 1 inch))
                                   / float_of_nat (fst (size_wh img))))
                            (fl (fsub (snd letter) (fmul 3 inch) / float_of_nat (snd (size_wh img))))))
                  / 2)))
          (fmul (float_of_nat (fst (size_wh img)))
             (min (fl (fsub (fst letter) (fmul (float_of_nat 2) (fmul 1 inch))
                         / float_of_nat (fst (size_wh img))))
                  (fl (fsub (snd letter) (fmul 3 inch) / float_of_nat (snd (size_wh img))))))
          (fmul (float_of_nat (snd (size_wh img)))
             (min (fl (fsub (fst letter) (fmul (float_of_nat 2) (fmul 1 inch))
                         / float_of_nat (fst (size_wh img))))
                  (fl (fsub (snd letter) (fmul 3 inch) / float_of_nat (snd (size_wh img))))))
          ''auto'',
        SetFont ''Helvetica'' 10,
        DrawString (fmul 1 inch) (fmul (py_float (8 / 10)) inch) f]"
proof -
  have "nondegenerate img" using assms(2) img_to_reader_Inr by blast
  then have nz: "float_of_nat (fst (size_wh img)) \<noteq> 0" "float_of_nat (snd (size_wh img)) \<noteq> 0"
    by (simp_all add: nondegenerate_def float_of_nat_zero_iff)
  show ?thesis
  proof (cases logo)
    case None
    then show ?thesis
      unfolding entry_ops_def entry_page_def truediv_def Let_def canvas_defs
      using nz assms(2) by simp
  next
    case (Some l)
    with assms have "embeddable E l" by (simp add: logo_ok_def)
    then obtain lr where lr: "img_to_reader E l = Inr lr" by (rule embeddableE)
    show ?thesis
      unfolding entry_ops_def entry_page_def truediv_def Let_def canvas_defs
      using nz assms(2) lr by (simp add: Some)
  qed
qed

lemma logo_okE:
  assumes "logo_ok E logo"
  obtains "logo = None" | l lr where "logo = Some l" "img_to_reader E l = Inr lr"
proof (cases logo)
  case None
  then show ?thesis using that by simp
next
  case (Some l)
  with assms have "embeddable E l" by (simp add: logo_ok_def)
  then obtain lr where "img_to_reader E l = Inr lr" by (rule embeddableE)
  then show ?thesis using that Some by simp
qed


lemma cover_ops_title:
  assumes "logo_ok E logo"
  shows "DrawString (fmul 1 inch) (fsub (snd letter) (fmul (py_float (14 / 10)) inch)) t
     \<in> set (cover_ops E logo t s f)"
  by (simp add: cover_ops_form[OF assms])










lemma enumerate_nth_pages:
  "i < length images \<Longrightarrow>
   map (\<lambda>(i, name, img). g i name img) (enumerate n images) ! i
     = g (n + i) (fst (images ! i)) (snd (images ! i))"
  by (simp add: nth_enumerate_eq case_prod_beta)


section \<open>The page number\<close>













section \<open>Pages and their order\<close>


section \<open>Failing calls\<close>







section \<open>Concrete images\<close>

lemma toy_embeddable:
  "embeddable env0 img_wide" "embeddable env0 img_tall" "embeddable env0 img_23"
  "embeddable env0 logo0" "logo_ok env0 (Some logo0)" "logo_ok E None"
  "\<not> embeddable env0 img_empty"
  by (simp_all add: embeddable_def logo_ok_def nondegenerate_def MAX_IMAGE_PIXELS_def
      img_wide_def img_tall_def
      img_23_def logo0_def img_empty_def)

lemma toy_titles:
  "\<not> has_surrogate ''Catalog''" "has_surrogate surrogate_title"
  by (simp_all add: surrogate_title_def)





section \<open>Text fields\<close>




section \<open>The document title\<close>

text \<open>
  C10. A document that is returned has the title argument as its title, and its cover
  draws the title at \<open>(1u, H - 1.4u)\<close>.
\<close>

theorem build_catalog_pdf_title:
  assumes "build_catalog_pdf E logo images t s f = Inr doc"
  shows "doc_title doc = Some t
       \<and> DrawString (fmul 1 inch) (fsub (snd letter) (fmul (py_float (14 / 10)) inch)) t
            \<in> set (doc_pages doc ! 0)"
proof -
  from build_Inr[OF assms] have ok: "logo_ok E logo"
    and d: "doc = \<lparr>doc_title = Some t,
      doc_pages = cover_ops E logo t s f #
        map (\<lambda>(i, name, img). entry_ops E logo f i name img) (enumerate 1 images)\<rparr>" by simp_all
  show ?thesis using cover_ops_title[OF ok, of t s f] by (simp add: d)
qed

theorem build_catalog_pdf_title_witness:
  "build_catalog_pdf env0 None [] ''Catalog'' ''Demo'' ''Contact''
     = Inr \<lparr>doc_title = Some ''Catalog'',
            doc_pages = [cover_ops env0 None ''Catalog'' ''Demo'' ''Contact'']\<rparr>
   \<and> doc_title \<lparr>doc_title = Some ''Catalog'',
            doc_pages = [cover_ops env0 None ''Catalog'' ''Demo'' ''Contact'']\<rparr> = Some ''Catalog''
   \<and> DrawString (fmul 1 inch) (fsub (snd letter) (fmul (py_float (14 / 10)) inch)) ''Catalog''
        \<in> set (doc_pages \<lparr>doc_title = Some ''Catalog'',
            doc_pages = [cover_ops env0 None ''Catalog'' ''Demo'' ''Contact'']\<rparr> ! 0)"
proof -
  have b: "build_catalog_pdf env0 None [] ''Catalog'' ''Demo'' ''Contact''
     = Inr \<lparr>doc_title = Some ''Catalog'',
            doc_pages = [cover_ops env0 None ''Catalog'' ''Demo'' ''Contact'']\<rparr>"
    using build_ok[of env0 None "[]" "''Catalog''" "''Demo''" "''Contact''"]
    by (simp add: toy_embeddable toy_titles)
  show ?thesis using b build_catalog_pdf_title[OF b] by simp
qed

section \<open>Fitting an image into the box\<close>

lemmas fl_eval = fl_def expo_def pow2_def round_even_def Let_def

lemma margin_x_val: "fmul 1 inch = 72"
  unfolding fmul_def inch_def fl_eval by (simp add: compute_floorlog)

lemma box_w_val: "fsub (fst letter) (fmul (float_of_nat 2) (fmul 1 inch)) = 468"
  unfolding margin_x_val unfolding fsub_def fmul_def float_of_nat_def letter_def fl_eval
  by (simp add: compute_floorlog)

lemma box_h_val: "fsub (snd letter) (fmul 3 inch) = 576"
  unfolding fsub_def fmul_def letter_def inch_def fl_eval
  by (simp add: compute_floorlog)

lemma round_even_of_int: "round_even (of_int m) = m"
  by (simp add: round_even_def)

lemma pow2_less_imp: "pow2 a < pow2 b \<Longrightarrow> a < b"
  by (simp add: pow2_powr)

lemma float_of_nat_exact:
  assumes "n < 2 ^ 53"
  shows "float_of_nat n = real n"
proof (cases "n = 0")
  case True
  then show ?thesis by (simp add: float_of_nat_def fl_def)
next
  case False
  define x where "x = real n"
  have x0: "x \<noteq> 0" using False by (simp add: x_def)
  have "real n < 2 ^ 53" using assms by (metis of_nat_less_iff of_nat_numeral of_nat_power)
  then have "\<bar>x\<bar> < pow2 53" by (simp add: x_def pow2_def)
  with expo_lower[OF x0] have "pow2 (expo x) < pow2 53" by linarith
  then have e: "expo x < 53" by (rule pow2_less_imp)
  define k where "k = nat (52 - expo x)"
  have u: "pow2 (expo x - 52) = 1 / 2 ^ k"
  proof (cases "expo x = 52")
    case True
    then show ?thesis by (simp add: pow2_def k_def)
  next
    case False
    with e have "expo x - 52 < 0" by simp
    then show ?thesis by (simp add: pow2_def k_def)
  qed
  have "x / pow2 (expo x - 52) = x * 2 ^ k" by (simp add: u)
  also have "\<dots> = of_int (int n * 2 ^ k)" by (simp add: x_def)
  finally have "x / pow2 (expo x - 52) = of_int (int n * 2 ^ k)" .
  then have "round_even (x / pow2 (expo x - 52)) = int n * 2 ^ k"
    by (simp only: round_even_of_int)
  then have "fl x = of_int (int n * 2 ^ k) * (1 / 2 ^ k)"
    using x0 by (simp add: fl_def Let_def u)
  then show ?thesis by (simp add: float_of_nat_def x_def)
qed

lemma fit_contained:
  assumes "0 < A" "0 < bx" "0 < q"
  shows "fl (A * min (fl (bx / A)) q) \<le> bx * (1 + 1 / 2 ^ 53) ^ 2"
proof -
  define s where "s = min (fl (bx / A)) q"
  have q0: "0 < fl (bx / A)" using assms by (simp add: fl_pos)
  have s0: "0 < s" using q0 assms(3) by (simp add: s_def)
  have "s \<le> fl (bx / A)" by (simp add: s_def)
  also have "\<dots> \<le> bx / A * (1 + 1 / 2 ^ 53)" using assms by (intro fl_upper) simp
  finally have "A * s \<le> A * (bx / A * (1 + 1 / 2 ^ 53))"
    using assms(1) by (simp only: mult_le_cancel_left_pos)
  also have "\<dots> = bx * (1 + 1 / 2 ^ 53)" using assms(1) by simp
  finally have as: "A * s \<le> bx * (1 + 1 / 2 ^ 53)" .
  have "fl (A * s) \<le> A * s * (1 + 1 / 2 ^ 53)" using assms(1) s0 by (intro fl_upper) simp
  also have "\<dots> \<le> bx * (1 + 1 / 2 ^ 53) * (1 + 1 / 2 ^ 53)"
    using as by (intro mult_right_mono) simp_all
  finally show ?thesis by (simp add: s_def power2_eq_square)
qed

lemma fit_ratio:
  assumes "0 < A" "0 < B" "0 < s"
  shows "fl (A * s) * B * (1 - 1 / 2 ^ 53) \<le> fl (B * s) * A * (1 + 1 / 2 ^ 53)"
proof -
  have a: "fl (A * s) \<le> A * s * (1 + 1 / 2 ^ 53)" using assms by (intro fl_upper) simp
  have b: "B * s * (1 - 1 / 2 ^ 53) \<le> fl (B * s)" using assms by (intro fl_lower) simp
  have "fl (A * s) * B * (1 - 1 / 2 ^ 53) \<le> A * s * (1 + 1 / 2 ^ 53) * B * (1 - 1 / 2 ^ 53)"
    using a assms(2) by (intro mult_right_mono) simp_all
  also have "\<dots> = (B * s * (1 - 1 / 2 ^ 53)) * A * (1 + 1 / 2 ^ 53)" by (simp add: algebra_simps)
  also have "\<dots> \<le> fl (B * s) * A * (1 + 1 / 2 ^ 53)"
    using b assms(1) by (intro mult_right_mono) simp_all
  finally show ?thesis .
qed

lemma box_w_val': "fsub (fst letter) (fmul (float_of_nat 2) 72) = 468"
  using box_w_val by (simp only: margin_x_val)

lemma entry_ops_rects:
  assumes "embeddable E img"
  shows "page_rects (entry_ops E None f idx name img) =
     [(fl (72 + fl (fl (468 - fl (float_of_nat (fst (size_wh img)) *
           min (fl (468 / float_of_nat (fst (size_wh img)))) (fl (576 / float_of_nat (snd (size_wh img)))))) / 2)),
       fl (fmul (py_float (12 / 10)) inch + fl (fl (576 - fl (float_of_nat (snd (size_wh img)) *
           min (fl (468 / float_of_nat (fst (size_wh img)))) (fl (576 / float_of_nat (snd (size_wh img)))))) / 2)),
       fl (float_of_nat (fst (size_wh img)) *
           min (fl (468 / float_of_nat (fst (size_wh img)))) (fl (576 / float_of_nat (snd (size_wh img))))),
       fl (float_of_nat (snd (size_wh img)) *
           min (fl (468 / float_of_nat (fst (size_wh img)))) (fl (576 / float_of_nat (snd (size_wh img))))))]"
proof -
  obtain ir where ir: "img_to_reader E img = Inr ir" using assms by (rule embeddableE)
  have n: "logo_ok E None" by (simp add: logo_ok_def)
  show ?thesis
    unfolding entry_ops_form[OF n ir] page_rects_def
    unfolding box_w_val box_h_val margin_x_val
    by (simp add: fadd_def fsub_def fmul_def box_w_val'[unfolded fsub_def fmul_def])
qed

lemma entry_ops_rects_last:
  assumes "logo_ok E logo" and "embeddable E img"
  shows "last (page_rects (entry_ops E logo f idx name img))
       = last (page_rects (entry_ops E None f idx name img))"
proof -
  obtain ir where ir: "img_to_reader E img = Inr ir" using assms(2) by (rule embeddableE)
  have n: "logo_ok E None" by (simp add: logo_ok_def)
  show ?thesis
    unfolding entry_ops_form[OF assms(1) ir] entry_ops_form[OF n ir] page_rects_def
    using assms(1) by (rule logo_okE) simp_all
qed

lemma fit_23_values:
  "float_of_nat 23 = 23" "float_of_nat 1 = 1"
  "fl (468 / 23) = 2863701936969283 / 140737488355328"
  "fl (576 / 1) = 576"
  "fl (23 * (2863701936969283 / 140737488355328)) = 8233143068786689 / 17592186044416"
  "fl (1 * (2863701936969283 / 140737488355328)) = 2863701936969283 / 140737488355328"
  "fl (468 - 8233143068786689 / 17592186044416) = - 1 / 17592186044416"
  "fl (- 1 / 17592186044416 / 2) = - 1 / 35184372088832"
  "fl (72 + - 1 / 35184372088832) = 2533274790395903 / 35184372088832"
  "fmul (py_float (12 / 10)) inch = 6079859496950169 / 70368744177664"
  "fl (576 - 2863701936969283 / 140737488355328) = 1221892052432807 / 2199023255552"
  "fl (1221892052432807 / 2199023255552 / 2) = 1221892052432807 / 4398046511104"
  "fl (6079859496950169 / 70368744177664 + 1221892052432807 / 4398046511104)
     = 3203766541984385 / 8796093022208"
  unfolding float_of_nat_def fmul_def py_float_def inch_def fl_eval
  by (simp_all add: compute_floorlog)

text \<open>
  C3 (as the code has it). For entry \<open>i\<close> of a document that is returned, the last
  image of page \<open>i + 1\<close> is drawn with
  \<open>scale = min (box_w / iw) (box_h / ih)\<close>, \<open>box_w = W - 2u = 468\<close>,
  \<open>box_h = H - 3u = 576\<close>, at the size \<open>(iw * scale, ih * scale)\<close> and at
  \<open>x = 1u + (box_w - draw_w) / 2\<close>, \<open>y = 1.2u + (box_h - draw_h) / 2\<close>, every
  operation rounded to a double. The drawn width and height are positive and exceed the
  box by no more than two roundings (a factor \<open>(1 + 2^-53)^2\<close>), and the drawn aspect
  ratio is that of the image up to two roundings. The image sizes enter as doubles,
  which are exact below \<open>2^53\<close>.
\<close>

theorem build_catalog_pdf_fit:
  assumes "build_catalog_pdf E logo images t s f = Inr doc" and "i < length images"
  shows "let iw = fst (size_wh (snd (images ! i))); ih = snd (size_wh (snd (images ! i)));
             A = float_of_nat iw; B = float_of_nat ih;
             scale = min (fl (468 / A)) (fl (576 / B));
             draw_w = fl (A * scale); draw_h = fl (B * scale);
             x = fl (72 + fl (fl (468 - draw_w) / 2));
             y = fl (fmul (py_float (12 / 10)) inch + fl (fl (576 - draw_h) / 2))
         in last (page_rects (doc_pages doc ! (i + 1))) = (x, y, draw_w, draw_h)
          \<and> fmul 1 inch = 72
          \<and> fsub (fst letter) (fmul (float_of_nat 2) (fmul 1 inch)) = 468
          \<and> fsub (snd letter) (fmul 3 inch) = 576
          \<and> 0 < draw_w \<and> 0 < draw_h
          \<and> draw_w \<le> 468 * (1 + 1 / 2 ^ 53) ^ 2 \<and> draw_h \<le> 576 * (1 + 1 / 2 ^ 53) ^ 2
          \<and> draw_w * B * (1 - 1 / 2 ^ 53) \<le> draw_h * A * (1 + 1 / 2 ^ 53)
          \<and> draw_h * A * (1 - 1 / 2 ^ 53) \<le> draw_w * B * (1 + 1 / 2 ^ 53)
          \<and> (iw < 2 ^ 53 \<longrightarrow> A = real iw) \<and> (ih < 2 ^ 53 \<longrightarrow> B = real ih)"
proof -
  from build_Inr[OF assms(1)] have ok: "logo_ok E logo"
    and em: "\<forall>p \<in> set images. embeddable E (snd p)"
    and d: "doc_pages doc = cover_ops E logo t s f #
        map (\<lambda>(i, name, img). entry_ops E logo f i name img) (enumerate 1 images)" by auto
  define img where "img = snd (images ! i)"
  have emi: "embeddable E img" using em assms(2) by (simp add: img_def)
  then have ndi: "nondegenerate img" by (simp add: embeddable_def)
  have pg: "doc_pages doc ! (i + 1) = entry_ops E logo f (i + 1) (fst (images ! i)) img"
    using enumerate_nth_pages[OF assms(2), of "entry_ops E logo f" 1] by (simp add: d img_def)
  define A where "A = float_of_nat (fst (size_wh img))"
  define B where "B = float_of_nat (snd (size_wh img))"
  define scale where "scale = min (fl (468 / A)) (fl (576 / B))"
  have A0: "0 < A" and B0: "0 < B"
    using ndi by (simp_all add: A_def B_def nondegenerate_def float_of_nat_pos)
  have qw: "0 < fl (468 / A)" and qh: "0 < fl (576 / B)"
    using A0 B0 by (simp_all add: fl_pos)
  then have s0: "0 < scale" by (simp add: scale_def)
  have rect: "last (page_rects (doc_pages doc ! (i + 1))) =
      (fl (72 + fl (fl (468 - fl (A * scale)) / 2)),
       fl (fmul (py_float (12 / 10)) inch + fl (fl (576 - fl (B * scale)) / 2)),
       fl (A * scale), fl (B * scale))"
    unfolding pg entry_ops_rects_last[OF ok emi] entry_ops_rects[OF emi]
    by (simp add: A_def B_def scale_def)
  have w0: "0 < fl (A * scale)" and h0: "0 < fl (B * scale)"
    using A0 B0 s0 by (simp_all add: fl_pos)
  have wb: "fl (A * scale) \<le> 468 * (1 + 1 / 2 ^ 53) ^ 2"
    unfolding scale_def using A0 qh by (intro fit_contained) simp_all
  have "fl (B * min (fl (576 / B)) (fl (468 / A))) \<le> 576 * (1 + 1 / 2 ^ 53) ^ 2"
    using B0 qw by (intro fit_contained) simp_all
  then have hb: "fl (B * scale) \<le> 576 * (1 + 1 / 2 ^ 53) ^ 2"
    by (simp add: scale_def min.commute)
  have r1: "fl (A * scale) * B * (1 - 1 / 2 ^ 53) \<le> fl (B * scale) * A * (1 + 1 / 2 ^ 53)"
    using A0 B0 s0 by (rule fit_ratio)
  have r2: "fl (B * scale) * A * (1 - 1 / 2 ^ 53) \<le> fl (A * scale) * B * (1 + 1 / 2 ^ 53)"
    using B0 A0 s0 by (rule fit_ratio)
  have ex: "fst (size_wh img) < 2 ^ 53 \<longrightarrow> A = real (fst (size_wh img))"
           "snd (size_wh img) < 2 ^ 53 \<longrightarrow> B = real (snd (size_wh img))"
    by (simp_all add: A_def B_def float_of_nat_exact)
  show ?thesis
    unfolding Let_def img_def[symmetric] A_def[symmetric] B_def[symmetric] scale_def[symmetric]
    using rect margin_x_val box_w_val box_h_val w0 h0 wb hb r1 r2 ex
    by (intro conjI)
qed

theorem build_catalog_pdf_fit_witness:
  "build_catalog_pdf env0 None [(''a.jpg'', img_wide)] [] [] []
     = Inr \<lparr>doc_title = Some [],
            doc_pages = [cover_ops env0 None [] [] [], entry_ops env0 None [] 1 ''a.jpg'' img_wide]\<rparr>
   \<and> (\<exists>x y w h. last (page_rects (entry_ops env0 None [] 1 ''a.jpg'' img_wide)) = (x, y, w, h)
         \<and> 0 < w \<and> w \<le> 468 * (1 + 1 / 2 ^ 53) ^ 2
         \<and> 0 < h \<and> h \<le> 576 * (1 + 1 / 2 ^ 53) ^ 2)"
proof -
  have n: "\<forall>p \<in> set [(''a.jpg'', img_wide)]. embeddable env0 (snd p)"
    by (simp add: toy_embeddable)
  define D where "D = \<lparr>doc_title = Some [],
            doc_pages = [cover_ops env0 None [] [] [], entry_ops env0 None [] 1 ''a.jpg'' img_wide]\<rparr>"
  have b: "build_catalog_pdf env0 None [(''a.jpg'', img_wide)] [] [] [] = Inr D"
    using build_ok[OF toy_embeddable(6) n, of "[]" "[]" "[]"] by (simp add: D_def)
  have l: "0 < length [(''a.jpg'', img_wide)]" by simp
  have p: "doc_pages D ! (0 + 1) = entry_ops env0 None [] 1 ''a.jpg'' img_wide" by (simp add: D_def)
  show ?thesis
    using b build_catalog_pdf_fit[OF b l, unfolded Let_def p]
    unfolding D_def by blast
qed

theorem fit_exceeds_box_counterexample:
  "build_catalog_pdf env0 None [(''w.png'', img_23)] [] [] []
     = Inr \<lparr>doc_title = Some [],
            doc_pages = [cover_ops env0 None [] [] [], entry_ops env0 None [] 1 ''w.png'' img_23]\<rparr>
   \<and> page_rects (entry_ops env0 None [] 1 ''w.png'' img_23)
       = [(2533274790395903 / 35184372088832, 3203766541984385 / 8796093022208,
           8233143068786689 / 17592186044416, 2863701936969283 / 140737488355328)]
   \<and> fsub (fst letter) (fmul (float_of_nat 2) (fmul 1 inch)) = 468
   \<and> (468 :: real) < 8233143068786689 / 17592186044416
   \<and> (2533274790395903 / 35184372088832 :: real) < 72"
proof -
  have n: "\<forall>p \<in> set [(''w.png'', img_23)]. embeddable env0 (snd p)"
    by (simp add: toy_embeddable)
  have nd: "embeddable env0 img_23" by (rule toy_embeddable)
  have b: "build_catalog_pdf env0 None [(''w.png'', img_23)] [] [] []
     = Inr \<lparr>doc_title = Some [],
            doc_pages = [cover_ops env0 None [] [] [], entry_ops env0 None [] 1 ''w.png'' img_23]\<rparr>"
    using build_ok[OF toy_embeddable(6) n, of "[]" "[]" "[]"] by simp
  have sz: "fst (size_wh img_23) = 23" "snd (size_wh img_23) = 1" by (simp_all add: img_23_def)
  have mn: "min (2863701936969283 / 140737488355328) (576 :: real)
      = 2863701936969283 / 140737488355328" by simp
  have r: "page_rects (entry_ops env0 None [] 1 ''w.png'' img_23)
       = [(2533274790395903 / 35184372088832, 3203766541984385 / 8796093022208,
           8233143068786689 / 17592186044416, 2863701936969283 / 140737488355328)]"
    unfolding entry_ops_rects[OF nd] by (simp only: sz fit_23_values mn)
  have c: "(468 :: real) < 8233143068786689 / 17592186044416"
          "(2533274790395903 / 35184372088832 :: real) < 72" by simp_all
  show ?thesis using b r box_w_val c by (intro conjI)
qed

section \<open>Reading the archive\<close>

text \<open>The test of line 20 is the specification's: a case-insensitive suffix.\<close>

lemma lower_char_eq:
  assumes "\<not> ((65 :: nat) \<le> of_char d \<and> of_char d \<le> (90 :: nat))"
  shows "lower_char c = d \<longleftrightarrow> same_letter c d"
proof (cases "(65 :: nat) \<le> of_char c \<and> of_char c \<le> (90 :: nat)")
  case True
  then have l: "lower_char c = char_of (of_char c + (32 :: nat))"
    by (simp add: lower_char_def Let_def)
  have o: "of_char (char_of (of_char c + (32 :: nat))) = (of_char c + 32 :: nat)"
    using True by (simp add: of_char_of)
  have ne: "c \<noteq> d" using True assms by auto
  show ?thesis
  proof
    assume "lower_char c = d"
    then have "of_char d = (of_char c + 32 :: nat)" using l o by simp
    then show "same_letter c d" using True by (simp add: same_letter_def)
  next
    assume "same_letter c d"
    then have "of_char d = (of_char c + 32 :: nat)" using ne by (simp add: same_letter_def)
    then have "of_char d = (of_char (lower_char c) :: nat)" using l o by simp
    then show "lower_char c = d" by simp
  qed
next
  case False
  then have l: "lower_char c = c" by (auto simp: lower_char_def Let_def)
  show ?thesis using False by (auto simp: l same_letter_def)
qed

lemma endswith_lower:
  assumes "\<forall>d \<in> set suf. \<not> ((65 :: nat) \<le> of_char d \<and> of_char d \<le> (90 :: nat))"
  shows "endswith (lower s) suf \<longleftrightarrow> ends_with_ignoring_case s suf"
proof -
  define t where "t = drop (length s - length suf) s"
  have "map lower_char t = suf \<longleftrightarrow> list_all2 (\<lambda>c d. lower_char c = d) t suf"
    by (simp add: list_all2_conv_all_nth list_eq_iff_nth_eq) 
  also have "\<dots> \<longleftrightarrow> list_all2 same_letter t suf"
    using assms lower_char_eq by (auto simp: list_all2_conv_all_nth)
  finally show ?thesis
    by (simp add: endswith_def ends_with_ignoring_case_def lower_def drop_map t_def)
qed

lemma is_image_name_recognized: "is_image_name n \<longleftrightarrow> recognized_image_name n"
proof -
  have "endswith (lower n) ''.png'' \<longleftrightarrow> ends_with_ignoring_case n ''.png''"
    by (rule endswith_lower) simp
  moreover have "endswith (lower n) ''.jpg'' \<longleftrightarrow> ends_with_ignoring_case n ''.jpg''"
    by (rule endswith_lower) simp
  moreover have "endswith (lower n) ''.jpeg'' \<longleftrightarrow> ends_with_ignoring_case n ''.jpeg''"
    by (rule endswith_lower) simp
  ultimately show ?thesis
    by (simp add: is_image_name_def endswith_any_def recognized_image_name_def)
qed

lemma directory_not_recognized:
  assumes "endswith n ''/''"
  shows "\<not> recognized_image_name n"
proof
  assume r: "recognized_image_name n"
  have ne: "n \<noteq> []" using assms by (auto simp: endswith_def)
  have "drop (length n - 1) n = [last n]"
    using ne by (metis append_butlast_last_id append_eq_conv_conj length_butlast)
  then have l: "last n = CHR ''/''" using assms by (simp add: endswith_def)
  have g: "same_letter (last n) CHR ''g''"
    if "ends_with_ignoring_case n suf" "suf \<noteq> []" "last suf = CHR ''g''" for suf
  proof -
    define t where "t = drop (length n - length suf) n"
    have a: "list_all2 same_letter t suf" and len: "length suf \<le> length n"
      using that(1) by (simp_all add: ends_with_ignoring_case_def t_def)
    have tl: "length t = length suf" using a by (rule list_all2_lengthD)
    then have tne: "t \<noteq> []" using that(2) by auto
    have "same_letter (t ! (length t - 1)) (suf ! (length t - 1))"
      using list_all2_nthD[OF a, of "length t - 1"] tne by simp
    then have "same_letter (last t) (last suf)"
      using tne that(2) tl by (simp add: last_conv_nth)
    moreover have "last t = last n" using tne by (simp add: t_def)
    ultimately show ?thesis using that(3) by simp
  qed
  from r have "same_letter (last n) CHR ''g''"
    unfolding recognized_image_name_def using g by fastforce
  then show False by (simp add: l same_letter_def)
qed

text \<open>The loop returns the pairs of the names that pass the test, in the order of the
  names, when each of them reads, opens and converts; it raises what the first one that
  does not raises.\<close>

lemma read_entry_Inr:
  "read_entry E z n = Inr p \<longleftrightarrow>
     (\<exists>bs im px. zread z n = Inr bs \<and> image_open E bs = Inr im
        \<and> convert_pixels E im ''RGBA'' = Inr px
        \<and> p = (n, \<lparr>mode = ''RGBA'', size_wh = size_wh im, pixels = px\<rparr>))"
  by (auto simp: read_entry_def convert_def split: sum.splits)

lemma read_loop_Inr:
  "read_loop E z names out = Inr r \<Longrightarrow>
   \<exists>res. r = out @ res \<and> map fst res = filter is_image_name names
        \<and> (\<forall>p \<in> set res. read_entry E z (fst p) = Inr p)"
proof (induction names arbitrary: out)
  case Nil
  then show ?case by simp
next
  case (Cons n names)
  show ?case
  proof (cases "is_image_name n")
    case False
    then show ?thesis using Cons.IH[of out] Cons.prems by simp
  next
    case True
    show ?thesis
    proof (cases "read_entry E z n")
      case (Inl e)
      then show ?thesis using Cons.prems True by simp
    next
      case (Inr p)
      then have fp: "fst p = n" by (auto simp: read_entry_Inr)
      from Cons.prems True Inr have "read_loop E z names (out @ [p]) = Inr r" by simp
      from Cons.IH[OF this] obtain res where res: "r = (out @ [p]) @ res"
        "map fst res = filter is_image_name names"
        "\<forall>q \<in> set res. read_entry E z (fst q) = Inr q" by blast
      show ?thesis
        using True Inr res fp by (intro exI[of _ "p # res"]) simp
    qed
  qed
qed

lemma read_loop_ok:
  "\<forall>n \<in> set names. is_image_name n \<longrightarrow> (\<exists>p. read_entry E z n = Inr p)
   \<Longrightarrow> \<exists>r. read_loop E z names out = Inr r"
proof (induction names arbitrary: out)
  case Nil
  then show ?case by simp
next
  case (Cons n names)
  have rest: "\<forall>n \<in> set names. is_image_name n \<longrightarrow> (\<exists>p. read_entry E z n = Inr p)"
    using Cons.prems by simp
  show ?case
  proof (cases "is_image_name n")
    case False
    then show ?thesis using Cons.IH[OF rest, of out] by simp
  next
    case True
    with Cons.prems obtain p where p: "read_entry E z n = Inr p" by auto
    show ?thesis using Cons.IH[OF rest, of "out @ [p]"] True p by simp
  qed
qed

lemma read_loop_fail:
  "\<exists>n \<in> set names. is_image_name n \<and> (\<exists>e. read_entry E z n = Inl e)
   \<Longrightarrow> \<exists>e. read_loop E z names out = Inl e
          \<and> (\<exists>n \<in> set names. is_image_name n \<and> read_entry E z n = Inl e)"
proof (induction names arbitrary: out)
  case Nil
  then show ?case by simp
next
  case (Cons n names)
  show ?case
  proof (cases "is_image_name n")
    case False
    with Cons.prems have "\<exists>n \<in> set names. is_image_name n \<and> (\<exists>e. read_entry E z n = Inl e)" by auto
    from Cons.IH[OF this, of out] show ?thesis using False by auto
  next
    case True
    show ?thesis
    proof (cases "read_entry E z n")
      case (Inl e)
      then show ?thesis using True by auto
    next
      case (Inr p)
      with Cons.prems have "\<exists>n \<in> set names. is_image_name n \<and> (\<exists>e. read_entry E z n = Inl e)" by auto
      from Cons.IH[OF this, of "out @ [p]"] show ?thesis using True Inr by auto
    qed
  qed
qed

lemma toy_contract: "convert_contract env0"
  unfolding convert_contract_def
proof (intro allI impI)
  fix img m px
  assume a: "convert_pixels env0 img m = Inr px"
  then have m: "m = ''RGB'' \<or> m = ''RGBA''"
    and len: "length (pixels img) = fst (size_wh img) * snd (size_wh img)"
    and px: "px = map (toy_pixel (mode img) m) (pixels img)"
    by (auto simp: env0_def toy_convert_def split: if_splits)
  have b: "length (toy_pixel src m p) = getbands m \<and> list_all (\<lambda>v. v \<le> 255) (toy_pixel src m p)"
    for src p
    using m by (auto simp: toy_pixel_def getbands_def Let_def list_all_iff)
  show "well_formed \<lparr>mode = m, size_wh = size_wh img, pixels = px\<rparr>"
    using b by (simp add: well_formed_def px len list_all_iff)
qed

lemma toy_names:
  "recognized_image_name ''b.png''" "\<not> recognized_image_name ''notes.txt''"
  "recognized_image_name ''a.jpg''" "\<not> recognized_image_name ''dir/''"
  "recognized_image_name ''C.PNG''" "recognized_image_name ''d.JpEg''"
  "\<not> recognized_image_name ''png''" "\<not> recognized_image_name ''e.png.txt''"
  "recognized_image_name ''c.PNG''" "recognized_image_name ''t.jpg''"
  by (simp_all add: recognized_image_name_def ends_with_ignoring_case_def same_letter_def)

lemma toy_archives:
  "\<exists>z. toy_zip [1] = Inr z
     \<and> namelist z = [''b.png'', ''notes.txt'', ''a.jpg'', ''dir/'', ''C.PNG'', ''d.JpEg'',
                          ''png'', ''e.png.txt'']
     \<and> zread z ''b.png'' = Inr [10, 20] \<and> zread z ''a.jpg'' = Inr [20, 10]
     \<and> zread z ''C.PNG'' = Inr [3, 4] \<and> zread z ''d.JpEg'' = Inr [5, 6]"
  "\<exists>z. toy_zip [2] = Inr z \<and> namelist z = [''b.png'', ''c.PNG'']
     \<and> zread z ''b.png'' = Inr [10, 20] \<and> zread z ''c.PNG'' = Inr [0]"
  "\<exists>z. toy_zip [3] = Inr z \<and> namelist z = [''b.png'', ''t.jpg'']
     \<and> zread z ''b.png'' = Inr [10, 20] \<and> zread z ''t.jpg'' = Inr [8, 8, 0]"
  by (simp_all add: toy_zip_def)

lemma toy_sort:
  "sort [''b.png'', ''a.jpg'', ''C.PNG'', ''d.JpEg''] = [''C.PNG'', ''a.jpg'', ''b.png'', ''d.JpEg'']"
  by code_simp

text \<open>
  C2. For an archive that opens: when every entry with a recognized suffix reads, opens
  as an image and converts, the call returns; and whenever it returns, the result has
  exactly one pair for each entry whose name ends case-insensitively in \<^verbatim>\<open>.png\<close>,
  \<^verbatim>\<open>.jpg\<close> or \<^verbatim>\<open>.jpeg\<close>, in ascending order of the names. Each image is the entry's
  bytes opened and converted to \<^verbatim>\<open>RGBA\<close>: of the size of the opened image and, by the
  library's promise for \<^verbatim>\<open>convert\<close>, with four values in 0..255 for each of its
  pixels. No name of a directory (a name ending in \<^verbatim>\<open>/\<close>) and no name without such a
  suffix is in the result. The test of the source (\<open>is_image_name\<close>) is the
  specification's (\<open>recognized_image_name\<close>).
\<close>

theorem read_zip_images_sorted:
  assumes "zip_open E b = Inr z"
  shows "((\<forall>n \<in> set (namelist z). recognized_image_name n \<longrightarrow>
            (\<exists>bs im px. zread z n = Inr bs \<and> image_open E bs = Inr im
               \<and> convert_pixels E im ''RGBA'' = Inr px))
          \<longrightarrow> (\<exists>out. read_zip_images E b = Inr out))
       \<and> (\<forall>out. read_zip_images E b = Inr out \<longrightarrow>
             map fst out = sort (filter recognized_image_name (namelist z))
           \<and> sorted (map fst out)
           \<and> length out = length (filter recognized_image_name (namelist z))
           \<and> (\<forall>p \<in> set out.
                 recognized_image_name (fst p) \<and> \<not> endswith (fst p) ''/''
               \<and> fst p \<in> set (namelist z)
               \<and> (\<exists>bs im px. zread z (fst p) = Inr bs \<and> image_open E bs = Inr im
                     \<and> convert_pixels E im ''RGBA'' = Inr px
                     \<and> snd p = \<lparr>mode = ''RGBA'', size_wh = size_wh im, pixels = px\<rparr>)
               \<and> (convert_contract E \<longrightarrow>
                     length (pixels (snd p)) = fst (size_wh (snd p)) * snd (size_wh (snd p))
                   \<and> list_all (\<lambda>px. length px = 4 \<and> list_all (\<lambda>v. v \<le> 255) px) (pixels (snd p)))))
       \<and> (\<forall>n. is_image_name n \<longleftrightarrow> recognized_image_name n)"
proof (intro conjI)
  show "\<forall>n. is_image_name n \<longleftrightarrow> recognized_image_name n"
    using is_image_name_recognized by blast
  show "(\<forall>n \<in> set (namelist z). recognized_image_name n \<longrightarrow>
            (\<exists>bs im px. zread z n = Inr bs \<and> image_open E bs = Inr im
               \<and> convert_pixels E im ''RGBA'' = Inr px))
          \<longrightarrow> (\<exists>out. read_zip_images E b = Inr out)"
  proof
    assume h: "\<forall>n \<in> set (namelist z). recognized_image_name n \<longrightarrow>
            (\<exists>bs im px. zread z n = Inr bs \<and> image_open E bs = Inr im
               \<and> convert_pixels E im ''RGBA'' = Inr px)"
    have "\<forall>n \<in> set (sort (namelist z)). is_image_name n \<longrightarrow> (\<exists>p. read_entry E z n = Inr p)"
      using h by (simp add: is_image_name_recognized read_entry_Inr) blast
    from read_loop_ok[OF this, of "[]"] show "\<exists>out. read_zip_images E b = Inr out"
      using assms by (simp add: read_zip_images_def)
  qed
  have main: "map fst out = sort (filter recognized_image_name (namelist z))
           \<and> sorted (map fst out)
           \<and> length out = length (filter recognized_image_name (namelist z))
           \<and> (\<forall>p \<in> set out.
                 recognized_image_name (fst p) \<and> \<not> endswith (fst p) ''/''
               \<and> fst p \<in> set (namelist z)
               \<and> (\<exists>bs im px. zread z (fst p) = Inr bs \<and> image_open E bs = Inr im
                     \<and> convert_pixels E im ''RGBA'' = Inr px
                     \<and> snd p = \<lparr>mode = ''RGBA'', size_wh = size_wh im, pixels = px\<rparr>)
               \<and> (convert_contract E \<longrightarrow>
                     length (pixels (snd p)) = fst (size_wh (snd p)) * snd (size_wh (snd p))
                   \<and> list_all (\<lambda>px. length px = 4 \<and> list_all (\<lambda>v. v \<le> 255) px) (pixels (snd p))))"
    if r: "read_zip_images E b = Inr out" for out
  proof -
    from r assms have "read_loop E z (sort (namelist z)) [] = Inr out"
      by (simp add: read_zip_images_def)
    from read_loop_Inr[OF this]
    have n: "map fst out = filter is_image_name (sort (namelist z))"
      and c: "\<forall>p \<in> set out. read_entry E z (fst p) = Inr p" by auto
    have isr: "is_image_name = recognized_image_name"
      using is_image_name_recognized by blast
    have names: "map fst out = sort (filter recognized_image_name (namelist z))"
      using n by (simp add: filter_sort isr)
    have len: "length out = length (filter recognized_image_name (namelist z))"
      using arg_cong[OF names, of length] by simp
    have each: "recognized_image_name (fst p) \<and> \<not> endswith (fst p) ''/''
               \<and> fst p \<in> set (namelist z)
               \<and> (\<exists>bs im px. zread z (fst p) = Inr bs \<and> image_open E bs = Inr im
                     \<and> convert_pixels E im ''RGBA'' = Inr px
                     \<and> snd p = \<lparr>mode = ''RGBA'', size_wh = size_wh im, pixels = px\<rparr>)
               \<and> (convert_contract E \<longrightarrow>
                     length (pixels (snd p)) = fst (size_wh (snd p)) * snd (size_wh (snd p))
                   \<and> list_all (\<lambda>px. length px = 4 \<and> list_all (\<lambda>v. v \<le> 255) px) (pixels (snd p)))"
      if p: "p \<in> set out" for p
    proof -
      have "fst p \<in> set (map fst out)" using p by simp
      then have i: "recognized_image_name (fst p)" and m: "fst p \<in> set (namelist z)"
        unfolding names by simp_all
      from i have d: "\<not> endswith (fst p) ''/''" using directory_not_recognized by blast
      from c p have "read_entry E z (fst p) = Inr p" by blast
      then obtain bs im px where e: "zread z (fst p) = Inr bs" "image_open E bs = Inr im"
        "convert_pixels E im ''RGBA'' = Inr px"
        "p = (fst p, \<lparr>mode = ''RGBA'', size_wh = size_wh im, pixels = px\<rparr>)"
        unfolding read_entry_Inr by blast
      then have sp: "snd p = \<lparr>mode = ''RGBA'', size_wh = size_wh im, pixels = px\<rparr>"
        by (metis snd_conv)
      have w: "length (pixels (snd p)) = fst (size_wh (snd p)) * snd (size_wh (snd p))
             \<and> list_all (\<lambda>px. length px = 4 \<and> list_all (\<lambda>v. v \<le> 255) px) (pixels (snd p))"
        if "convert_contract E"
      proof -
        from that e(3) have "well_formed \<lparr>mode = ''RGBA'', size_wh = size_wh im, pixels = px\<rparr>"
          unfolding convert_contract_def by blast
        then show ?thesis by (simp add: sp well_formed_def getbands_def)
      qed
      show ?thesis using i d m e(1,2,3) sp w by blast
    qed
    have srt: "sorted (map fst out)" unfolding names by simp
    show ?thesis using names srt len each by blast
  qed
  show "\<forall>out. read_zip_images E b = Inr out \<longrightarrow>
             map fst out = sort (filter recognized_image_name (namelist z))
           \<and> sorted (map fst out)
           \<and> length out = length (filter recognized_image_name (namelist z))
           \<and> (\<forall>p \<in> set out.
                 recognized_image_name (fst p) \<and> \<not> endswith (fst p) ''/''
               \<and> fst p \<in> set (namelist z)
               \<and> (\<exists>bs im px. zread z (fst p) = Inr bs \<and> image_open E bs = Inr im
                     \<and> convert_pixels E im ''RGBA'' = Inr px
                     \<and> snd p = \<lparr>mode = ''RGBA'', size_wh = size_wh im, pixels = px\<rparr>)
               \<and> (convert_contract E \<longrightarrow>
                     length (pixels (snd p)) = fst (size_wh (snd p)) * snd (size_wh (snd p))
                   \<and> list_all (\<lambda>px. length px = 4 \<and> list_all (\<lambda>v. v \<le> 255) px) (pixels (snd p))))"
    using main by blast
qed

theorem read_zip_images_sorted_witness:
  "zip_open env0 [1] = toy_zip [1] \<and> convert_contract env0
   \<and> (\<exists>out. read_zip_images env0 [1] = Inr out
         \<and> map fst out = [''C.PNG'', ''a.jpg'', ''b.png'', ''d.JpEg'']
         \<and> length out = 4
         \<and> (\<exists>px. snd (out ! 0) = \<lparr>mode = ''RGBA'', size_wh = (3, 4), pixels = px\<rparr>
               \<and> length px = 12 \<and> list_all (\<lambda>p. length p = 4) px))"
proof -
  obtain z where z: "toy_zip [1] = Inr z"
    and nl: "namelist z = [''b.png'', ''notes.txt'', ''a.jpg'', ''dir/'', ''C.PNG'', ''d.JpEg'',
                          ''png'', ''e.png.txt'']"
    and rd: "zread z ''b.png'' = Inr [10, 20]" "zread z ''a.jpg'' = Inr [20, 10]"
      "zread z ''C.PNG'' = Inr [3, 4]" "zread z ''d.JpEg'' = Inr [5, 6]"
    using toy_archives(1) by blast
  have o: "zip_open env0 [1] = Inr z" using z by (simp add: env0_def)
  note th = read_zip_images_sorted[OF o]
  have cv: "\<exists>px. convert_pixels env0 \<lparr>mode = ''RGB'', size_wh = (w, h),
       pixels = replicate (w * h) [10, 20, 30]\<rparr> ''RGBA'' = Inr px" for w h
    by (simp add: env0_def toy_convert_def)
  have h: "\<forall>n \<in> set (namelist z). recognized_image_name n \<longrightarrow>
            (\<exists>bs im px. zread z n = Inr bs \<and> image_open env0 bs = Inr im
               \<and> convert_pixels env0 im ''RGBA'' = Inr px)"
    using cv by (simp add: nl toy_names rd) (simp add: env0_def toy_decode_def toy_convert_def)
  from th h obtain out where out: "read_zip_images env0 [1] = Inr out" by blast
  from th out have names: "map fst out = sort (filter recognized_image_name (namelist z))"
    and len: "length out = length (filter recognized_image_name (namelist z))"
    and each: "\<forall>p \<in> set out.
         (\<exists>bs im px. zread z (fst p) = Inr bs \<and> image_open env0 bs = Inr im
             \<and> convert_pixels env0 im ''RGBA'' = Inr px
             \<and> snd p = \<lparr>mode = ''RGBA'', size_wh = size_wh im, pixels = px\<rparr>)
       \<and> (convert_contract env0 \<longrightarrow>
             length (pixels (snd p)) = fst (size_wh (snd p)) * snd (size_wh (snd p))
           \<and> list_all (\<lambda>px. length px = 4 \<and> list_all (\<lambda>v. v \<le> 255) px) (pixels (snd p)))"
    by blast+
  have names': "map fst out = [''C.PNG'', ''a.jpg'', ''b.png'', ''d.JpEg'']"
    using names by (simp add: nl toy_names toy_sort)
  have len': "length out = 4" using len by (simp add: nl toy_names)
  have f0: "fst (out ! 0) = ''C.PNG''"
    using arg_cong[OF names', of "\<lambda>l. l ! 0"] len' by simp
  have "out ! 0 \<in> set out" using len' by simp
  with each toy_contract obtain bs im px where e:
    "zread z (fst (out ! 0)) = Inr bs" "image_open env0 bs = Inr im"
    "snd (out ! 0) = \<lparr>mode = ''RGBA'', size_wh = size_wh im, pixels = px\<rparr>"
    "length (pixels (snd (out ! 0))) = fst (size_wh (snd (out ! 0))) * snd (size_wh (snd (out ! 0)))"
    "list_all (\<lambda>px. length px = 4 \<and> list_all (\<lambda>v. v \<le> 255) px) (pixels (snd (out ! 0)))"
    by blast
  have "bs = [3, 4]" using e(1) by (simp add: f0 rd)
  then have "size_wh im = (3, 4)" using e(2) by (auto simp: env0_def toy_decode_def)
  then have "snd (out ! 0) = \<lparr>mode = ''RGBA'', size_wh = (3, 4), pixels = px\<rparr>
      \<and> length px = 12 \<and> list_all (\<lambda>p. length p = 4) px"
    using e(3,4,5) by (simp add: list_all_iff)
  then have pxe: "\<exists>px. snd (out ! 0) = \<lparr>mode = ''RGBA'', size_wh = (3, 4), pixels = px\<rparr>
      \<and> length px = 12 \<and> list_all (\<lambda>p. length p = 4) px" by (rule exI)
  have oe: "\<exists>out. read_zip_images env0 [1] = Inr out
         \<and> map fst out = [''C.PNG'', ''a.jpg'', ''b.png'', ''d.JpEg'']
         \<and> length out = 4
         \<and> (\<exists>px. snd (out ! 0) = \<lparr>mode = ''RGBA'', size_wh = (3, 4), pixels = px\<rparr>
               \<and> length px = 12 \<and> list_all (\<lambda>p. length p = 4) px)"
    using out names' len' pxe by (intro exI[of _ out] conjI)
  have zo: "zip_open env0 [1] = toy_zip [1]" by (simp add: env0_def)
  show ?thesis using zo toy_contract oe by (intro conjI)
qed

text \<open>
  C9. When the archive opens and holds an entry with a recognized suffix whose bytes do
  not open as an image, or open and fail to load when converted, the call raises: it
  returns no pairs and no count of skipped entries. The loop has no handler, so the
  exception that leaves the function is the one raised for such an entry.
\<close>

theorem read_zip_images_undecodable:
  assumes "zip_open E b = Inr z"
    and "n \<in> set (namelist z)" and "is_image_name n"
    and "zread z n = Inr bs"
    and "image_open E bs = Inl e0
         \<or> (\<exists>im. image_open E bs = Inr im \<and> convert_pixels E im ''RGBA'' = Inl e0)"
  shows "\<exists>e. read_zip_images E b = Inl e
           \<and> (\<exists>m \<in> set (namelist z). is_image_name m \<and> read_entry E z m = Inl e)"
proof -
  have "read_entry E z n = Inl e0"
    using assms(4,5) by (auto simp: read_entry_def convert_def)
  then have "\<exists>n \<in> set (sort (namelist z)). is_image_name n \<and> (\<exists>e. read_entry E z n = Inl e)"
    using assms(2,3) by auto
  from read_loop_fail[OF this, of "[]"] obtain e m where
    e: "read_loop E z (sort (namelist z)) [] = Inl e"
    and m: "m \<in> set (namelist z)" "is_image_name m" "read_entry E z m = Inl e" by auto
  have "read_zip_images E b = Inl e" using assms(1) e by (simp add: read_zip_images_def)
  then show ?thesis using m by blast
qed

theorem read_zip_images_undecodable_witness:
  "zip_open env0 [2] = toy_zip [2]
   \<and> is_image_name ''c.PNG''
   \<and> image_open env0 [0] = Inl UnidentifiedImageError
   \<and> read_zip_images env0 [2] = Inl UnidentifiedImageError
   \<and> zip_open env0 [3] = toy_zip [3]
   \<and> is_image_name ''t.jpg''
   \<and> (\<exists>im. image_open env0 [8, 8, 0] = Inr im \<and> convert_pixels env0 im ''RGBA'' = Inl OSError)
   \<and> read_zip_images env0 [3] = Inl OSError"
proof -
  have isr: "is_image_name = recognized_image_name"
    using is_image_name_recognized by blast
  have bp: "read_entry env0 z ''b.png'' \<noteq> Inl e" if "zread z ''b.png'' = Inr [10, 20]" for z e
    using that by (simp add: read_entry_def convert_def env0_def toy_decode_def toy_convert_def)
  obtain z2 where z2: "toy_zip [2] = Inr z2" and nl2: "namelist z2 = [''b.png'', ''c.PNG'']"
    and rd2: "zread z2 ''b.png'' = Inr [10, 20]" "zread z2 ''c.PNG'' = Inr [0]"
    using toy_archives(2) by blast
  have o2: "zip_open env0 [2] = Inr z2" using z2 by (simp add: env0_def)
  have n2: "''c.PNG'' \<in> set (namelist z2)" by (simp add: nl2)
  have i2: "is_image_name ''c.PNG''" by (simp add: isr toy_names)
  have d2: "image_open env0 [0] = Inl UnidentifiedImageError" by (simp add: env0_def toy_decode_def)
  have c2: "read_entry env0 z2 ''c.PNG'' = Inl UnidentifiedImageError"
    by (simp add: read_entry_def rd2 d2)
  from read_zip_images_undecodable[OF o2 n2 i2 rd2(2), of UnidentifiedImageError] d2
  obtain e m where e: "read_zip_images env0 [2] = Inl e" "m \<in> set (namelist z2)"
    "read_entry env0 z2 m = Inl e" by blast
  have r2: "read_zip_images env0 [2] = Inl UnidentifiedImageError"
    using e bp[OF rd2(1)] c2 by (auto simp: nl2)
  obtain z3 where z3: "toy_zip [3] = Inr z3" and nl3: "namelist z3 = [''b.png'', ''t.jpg'']"
    and rd3: "zread z3 ''b.png'' = Inr [10, 20]" "zread z3 ''t.jpg'' = Inr [8, 8, 0]"
    using toy_archives(3) by blast
  have o3: "zip_open env0 [3] = Inr z3" using z3 by (simp add: env0_def)
  have n3: "''t.jpg'' \<in> set (namelist z3)" by (simp add: nl3)
  have i3: "is_image_name ''t.jpg''" by (simp add: isr toy_names)
  have d3: "\<exists>im. image_open env0 [8, 8, 0] = Inr im \<and> convert_pixels env0 im ''RGBA'' = Inl OSError"
    by (simp add: env0_def toy_decode_def toy_convert_def)
  then have c3: "read_entry env0 z3 ''t.jpg'' = Inl OSError"
    by (auto simp: read_entry_def rd3 convert_def)
  from read_zip_images_undecodable[OF o3 n3 i3 rd3(2), of OSError] d3
  obtain e' m' where e': "read_zip_images env0 [3] = Inl e'" "m' \<in> set (namelist z3)"
    "read_entry env0 z3 m' = Inl e'" by blast
  have r3: "read_zip_images env0 [3] = Inl OSError"
    using e' bp[OF rd3(1)] c3 by (auto simp: nl3)
  have "zip_open env0 [2] = toy_zip [2]" "zip_open env0 [3] = toy_zip [3]"
    by (simp_all add: env0_def)
  then show ?thesis using i2 d2 r2 i3 d3 r3 by (intro conjI)
qed

section \<open>Compositing on white\<close>

















section \<open>The logo\<close>




end
